theory Spec2Isabelle
  imports
    Main
    "HOL-Library.Word"
    "HOL-Library.Char_ord"
    "HOL-Library.List_Lexorder"
    "HOL-Library.Sublist"
begin

unbundle bit_operations_syntax

section \<open>Full-text-search query evaluation (pkg/util/tsearch/eval.go)\<close>

subsection \<open>Machine integers\<close>

text \<open>
  Go's \<^verbatim>\<open>int\<close> is a 64-bit two's complement integer on the platforms the repository
  builds for. It is modelled as \<^typ>\<open>int\<close> with the wrap-around written out: every
  addition and subtraction of the source goes through \<open>wrap64\<close>. A position is a
  \<^verbatim>\<open>uint16\<close> (the source converts with \<^verbatim>\<open>uint16(lPos)\<close>), modelled as \<^typ>\<open>16 word\<close>;
  \<^verbatim>\<open>int(p)\<close> is \<open>uint p\<close> and \<^verbatim>\<open>uint16(k)\<close> is \<open>word_of_int k\<close>.
\<close>

definition wrap64 :: "int \<Rightarrow> int" where
  "wrap64 x = (x + 2 ^ 63) mod 2 ^ 64 - 2 ^ 63"

definition MaxInt64 :: int where
  "MaxInt64 = 2 ^ 63 - 1"

subsection \<open>Data model\<close>

text \<open>
  The declarations of \<^verbatim>\<open>tsPosition\<close>, \<^verbatim>\<open>tsWeight\<close>, \<^verbatim>\<open>tsTerm\<close>, \<^verbatim>\<open>TSVector\<close>, \<^verbatim>\<open>tsOperator\<close>,
  \<^verbatim>\<open>tsNode\<close> and \<^verbatim>\<open>TSQuery\<close> and the constants \<^verbatim>\<open>weightStar\<close> and
  \<^verbatim>\<open>maxTSVectorPositions\<close> are in files of the package other than eval.go. The types
  below carry exactly the fields eval.go reads and writes.
\<close>

text \<open>Modelled from the spec: \<^verbatim>\<open>tsWeight\<close>, an integer slot holding a weight class or the
  prefix marker; its zero value is what \<^verbatim>\<open>tsPosition{position: p}\<close> leaves in the slot.\<close>

type_synonym tsWeight = int

text \<open>Modelled from the spec: \<^verbatim>\<open>weightStar\<close>, the prefix marker, one fixed value of the
  weight slot. Only equality with it is ever tested.\<close>

definition weightStar :: tsWeight where
  "weightStar = 16"

text \<open>Modelled from the spec: \<^verbatim>\<open>maxTSVectorPositions\<close>, the cap \<open>MAX_POSITIONS\<close> of 256
  entries (the source's comment at the truncation names the same number).\<close>

definition maxTSVectorPositions :: nat where
  "maxTSVectorPositions = 256"

text \<open>Modelled from the spec: \<^verbatim>\<open>tsPosition\<close>, an occurrence record: a bounded unsigned
  position (16 bits, as the conversions \<^verbatim>\<open>int(p.position)\<close> and \<^verbatim>\<open>uint16(lPos)\<close> of the
  source have it) and the weight slot.\<close>

record tsPosition =
  position :: "16 word"
  weight :: tsWeight

text \<open>Modelled from the spec: \<^verbatim>\<open>tsTerm\<close>, a term entry of a vector and the term of a
  query leaf, and \<^verbatim>\<open>TSVector\<close>, the sequence of term entries. Field \<^verbatim>\<open>positions\<close> of
  the source is \<open>term_positions\<close> here, to keep it apart from the field of the same
  name of \<^verbatim>\<open>tsPositionSet\<close>.\<close>

record tsTerm =
  lexeme :: string
  term_positions :: "tsPosition list"

type_synonym TSVector = "tsTerm list"

text \<open>Modelled from the spec: \<^verbatim>\<open>tsOperator\<close>, the operator tag of a node. The five tags
  the evaluator's \<^verbatim>\<open>switch\<close> statements name are constructors; every other value of the
  tag is \<open>other_op k\<close>. The names \<^verbatim>\<open>and\<close>, \<^verbatim>\<open>or\<close> and \<^verbatim>\<open>not\<close> of the source carry a
  suffix.\<close>

datatype tsOperator = invalid | and_op | or_op | not_op | followedby | other_op int

text \<open>Modelled from the spec: \<^verbatim>\<open>tsNode\<close> and \<^verbatim>\<open>TSQuery\<close>. A node is a struct with
  two child pointers (\<^verbatim>\<open>*tsNode\<close>); a pointer that may be nil is an \<open>option\<close>. The
  fields are \<^verbatim>\<open>op\<close>, \<^verbatim>\<open>followedN\<close>, \<^verbatim>\<open>term\<close>, \<^verbatim>\<open>l\<close>, \<^verbatim>\<open>r\<close>, in this order.
  \<^verbatim>\<open>followedN\<close>, which the source converts with \<^verbatim>\<open>int(node.followedN)\<close>, is an
  unsigned 16-bit distance. A query holds the pointer to its root.\<close>

datatype tsNode =
  TsNode (node_op: tsOperator) (node_followedN: "16 word") (node_term: tsTerm)
         (node_l: "tsNode option") (node_r: "tsNode option")

record TSQuery =
  root :: "tsNode option"

text \<open>The one error the evaluator constructs is the assertion failure for an unknown
  operator tag. Dereferencing a nil child makes Go panic; the model records the panic as
  the value \<open>NilDereference\<close>, which every caller hands up unchanged, as the unwinding
  panic would.\<close>

datatype error = AssertionFailed tsOperator | NilDereference

record tsPositionSet =
  positions :: "tsPosition list"
  width :: int
  invert :: bool

text \<open>The zero value \<^verbatim>\<open>tsPositionSet{}\<close>.\<close>

definition emptyPositionSet :: tsPositionSet where
  "emptyPositionSet = \<lparr>positions = [], width = 0, invert = False\<rparr>"

type_synonym emitMode = int

definition emitMatches :: emitMode where
  "emitMatches = 1"

definition emitLeftUnmatched :: emitMode where
  "emitLeftUnmatched = 2"

definition emitRightUnmatched :: emitMode where
  "emitRightUnmatched = 4"

subsection \<open>Library functions the evaluator calls\<close>

text \<open>\<^verbatim>\<open>sort.Search(n, f)\<close> of Go's standard library: binary search over \<open>[0, n)\<close>.\<close>

function Search_loop :: "(nat \<Rightarrow> bool) \<Rightarrow> nat \<Rightarrow> nat \<Rightarrow> nat" where
  "Search_loop f i j =
     (if i < j then
        (let h = (i + j) div 2
         in if \<not> f h then Search_loop f (h + 1) j else Search_loop f i h)
      else i)"
  by pat_completeness auto
termination
  by (relation "measure (\<lambda>(f, i, j). j - i)") auto

declare Search_loop.simps [simp del]

definition Search :: "nat \<Rightarrow> (nat \<Rightarrow> bool) \<Rightarrow> nat" where
  "Search n f = Search_loop f 0 n"

text \<open>\<^verbatim>\<open>strings.HasPrefix(s, prefix)\<close>.\<close>

definition HasPrefix :: "string \<Rightarrow> string \<Rightarrow> bool" where
  "HasPrefix s pre = (length pre \<le> length s \<and> take (length pre) s = pre)"

text \<open>\<^verbatim>\<open>sort.Slice(pos, less)\<close> with \<^verbatim>\<open>less\<close> comparing the \<^verbatim>\<open>position\<close> fields. Go does
  not promise a stable sort; the model takes the stable one. The two agree on the
  positions of the result, and on the whole result when no position occurs twice. Among
  entries with the same position the model puts the first of the input first, where Go
  may put another: the entry \<^verbatim>\<open>sortAndUniqTSPositions\<close> keeps for that position may then
  carry another weight. The evaluator never reads the weight of such an entry, and the
  properties below that speak of \<^verbatim>\<open>sortAndUniqTSPositions\<close> on lists with repeated
  positions speak of positions only.\<close>

definition sort_Slice :: "tsPosition list \<Rightarrow> tsPosition list" where
  "sort_Slice pos = sort_key position pos"

subsection \<open>sortAndUniqTSPositions\<close>

text \<open>The in-place loop \<^verbatim>\<open>for j := 1; j < len(pos); j++\<close>: the state is the slice, the
  index \<^verbatim>\<open>lastUniqueIdx\<close> and the loop counter.\<close>

function uniq_loop :: "tsPosition list \<Rightarrow> nat \<Rightarrow> nat \<Rightarrow> tsPosition list \<times> nat" where
  "uniq_loop pos lastUniqueIdx j =
     (if j < length pos then
        (if position (pos ! j) \<noteq> position (pos ! lastUniqueIdx)
         then uniq_loop (pos[lastUniqueIdx + 1 := pos ! j]) (lastUniqueIdx + 1) (j + 1)
         else uniq_loop pos lastUniqueIdx (j + 1))
      else (pos, lastUniqueIdx))"
  by pat_completeness auto
termination
  by (relation "measure (\<lambda>(pos, lastUniqueIdx, j). length pos - j)") auto

declare uniq_loop.simps [simp del]

definition sortAndUniqTSPositions :: "tsPosition list \<Rightarrow> tsPosition list" where
  "sortAndUniqTSPositions pos =
     (if length pos \<le> 1 then pos
      else
        (let sorted_pos = sort_Slice pos;
             (pos', lastUniqueIdx) = uniq_loop sorted_pos 0 1;
             pos'' = take (lastUniqueIdx + 1) pos'
         in if length pos'' > maxTSVectorPositions
            then take maxTSVectorPositions pos''
            else pos''))"

subsection \<open>Term lookup\<close>

text \<open>The test for the prefix marker, the same in both evaluators.\<close>

definition prefixMatch :: "tsTerm \<Rightarrow> bool" where
  "prefixMatch t =
     (length (term_positions t) > 0 \<and> weight (term_positions t ! 0) = weightStar)"

text \<open>The binary search for the first entry whose lexeme is at least the target.\<close>

definition searchVector :: "TSVector \<Rightarrow> string \<Rightarrow> nat" where
  "searchVector v target = Search (length v) (\<lambda>i. lexeme (v ! i) \<ge> target)"

subsection \<open>evalFollowedBy: the sorted-list merge\<close>

text \<open>The two cursors \<^verbatim>\<open>lIdx\<close> and \<^verbatim>\<open>rIdx\<close> only move forward, so the state of the loop
  is the two remaining suffixes; a cursor moved past the end stays exhausted. The
  function returns what the loop appends to \<^verbatim>\<open>ret.positions\<close>, in order.\<close>

definition emitIf :: "bool \<Rightarrow> int \<Rightarrow> tsPosition list" where
  "emitIf c pos = (if c then [\<lparr>position = word_of_int pos, weight = 0\<rparr>] else [])"

text \<open>The comparison value of a cursor: the adjusted position under it, or
  \<^verbatim>\<open>math.MaxInt64\<close> once the side is exhausted.\<close>

definition cursorPos :: "tsPosition list \<Rightarrow> int \<Rightarrow> int" where
  "cursorPos xs offset =
     (if xs \<noteq> [] then wrap64 (uint (position (hd xs)) + offset) else MaxInt64)"

function evalFollowedBy_loop ::
  "tsPosition list \<Rightarrow> tsPosition list \<Rightarrow> int \<Rightarrow> int \<Rightarrow> emitMode \<Rightarrow> tsPosition list" where
  "evalFollowedBy_loop ls rs lOffset rOffset mode =
     (if ls = [] \<and> rs = [] then []
      else if ls = [] \<and> mode AND emitRightUnmatched = 0 then []
      else if rs = [] \<and> mode AND emitLeftUnmatched = 0 then []
      else if cursorPos ls lOffset < cursorPos rs rOffset then
        emitIf (mode AND emitLeftUnmatched > 0) (cursorPos ls lOffset)
          @ evalFollowedBy_loop (tl ls) rs lOffset rOffset mode
      else if cursorPos ls lOffset = cursorPos rs rOffset then
        emitIf (mode AND emitMatches > 0) (cursorPos rs rOffset)
          @ evalFollowedBy_loop (tl ls) (tl rs) lOffset rOffset mode
      else
        emitIf (mode AND emitRightUnmatched > 0) (cursorPos rs rOffset)
          @ evalFollowedBy_loop ls (tl rs) lOffset rOffset mode)"
  by pat_completeness auto
termination
proof (relation "measure (\<lambda>(ls :: tsPosition list, rs :: tsPosition list, lOffset :: int, rOffset :: int, mode :: emitMode). length ls + length rs)")
  show "wf (measure (\<lambda>(ls :: tsPosition list, rs :: tsPosition list, lOffset :: int, rOffset :: int, mode :: emitMode). length ls + length rs))"
    by simp
next
  fix ls rs :: "tsPosition list" and lOffset rOffset mode :: int
  assume lt: "cursorPos ls lOffset < cursorPos rs rOffset"
  have "wrap64 y \<le> MaxInt64" for y
    unfolding wrap64_def MaxInt64_def
    using pos_mod_bound [of "2 ^ 64" "y + 2 ^ 63"] by simp
  then have "cursorPos rs rOffset \<le> MaxInt64"
    by (simp add: cursorPos_def)
  with lt have "ls \<noteq> []"
    by (auto simp: cursorPos_def)
  then show "((tl ls, rs, lOffset, rOffset, mode), ls, rs, lOffset, rOffset, mode)
      \<in> measure (\<lambda>(ls, rs, lOffset, rOffset, mode). length ls + length rs)"
    by (cases ls) simp_all
next
  fix ls rs :: "tsPosition list" and lOffset rOffset mode :: int
  assume "\<not> (ls = [] \<and> rs = [])"
  then show "((tl ls, tl rs, lOffset, rOffset, mode), ls, rs, lOffset, rOffset, mode)
      \<in> measure (\<lambda>(ls, rs, lOffset, rOffset, mode). length ls + length rs)"
    by (cases ls; cases rs) simp_all
next
  fix ls rs :: "tsPosition list" and lOffset rOffset mode :: int
  assume gt: "\<not> cursorPos ls lOffset < cursorPos rs rOffset"
    "cursorPos ls lOffset \<noteq> cursorPos rs rOffset"
  have "wrap64 y \<le> MaxInt64" for y
    unfolding wrap64_def MaxInt64_def
    using pos_mod_bound [of "2 ^ 64" "y + 2 ^ 63"] by simp
  then have "cursorPos ls lOffset \<le> MaxInt64"
    by (simp add: cursorPos_def)
  with gt have "rs \<noteq> []"
    by (auto simp: cursorPos_def)
  then show "((ls, tl rs, lOffset, rOffset, mode), ls, rs, lOffset, rOffset, mode)
      \<in> measure (\<lambda>(ls, rs, lOffset, rOffset, mode). length ls + length rs)"
    by (cases rs) simp_all
qed

declare evalFollowedBy_loop.simps [simp del]

text \<open>\<^verbatim>\<open>evalFollowedBy\<close> starts from the zero position set, fills its positions and
  always returns a nil error.\<close>

definition evalFollowedBy ::
  "tsPositionSet \<Rightarrow> tsPositionSet \<Rightarrow> int \<Rightarrow> int \<Rightarrow> emitMode \<Rightarrow> error + tsPositionSet" where
  "evalFollowedBy lPositions rPositions lOffset rOffset mode =
     Inr (emptyPositionSet
       \<lparr>positions :=
          evalFollowedBy_loop (positions lPositions) (positions rPositions)
            lOffset rOffset mode\<rparr>)"

subsection \<open>evalWithinFollowedBy: the position-set evaluator\<close>

text \<open>The scan \<^verbatim>\<open>for j := i; j < len(e.v); j++\<close> of the prefix case, over the entries
  from index \<open>i\<close> on: it stops at the first entry without the prefix.\<close>

fun prefix_loop :: "tsTerm list \<Rightarrow> string \<Rightarrow> tsPosition list" where
  "prefix_loop [] target = []"
| "prefix_loop (t # ts) target =
     (if \<not> HasPrefix (lexeme t) target then []
      else term_positions t @ prefix_loop ts target)"

text \<open>The leaf case (operator tag \<^verbatim>\<open>invalid\<close>).\<close>

definition evalLeafWithin :: "TSVector \<Rightarrow> tsTerm \<Rightarrow> error + tsPositionSet" where
  "evalLeafWithin v t =
     (let target = lexeme t; i = searchVector v target
      in if i \<ge> length v then Inr emptyPositionSet
         else if prefixMatch t then
           Inr (emptyPositionSet
             \<lparr>positions := sortAndUniqTSPositions (prefix_loop (drop i v) target)\<rparr>)
         else if lexeme (v ! i) \<noteq> target then Inr emptyPositionSet
         else Inr (emptyPositionSet \<lparr>positions := term_positions (v ! i)\<rparr>))"

text \<open>The alignment of \<^verbatim>\<open>or\<close> and \<^verbatim>\<open>and\<close> to a common width: the triple
  \<open>(lOffset, rOffset, width)\<close>.\<close>

definition alignOffsets :: "tsPositionSet \<Rightarrow> tsPositionSet \<Rightarrow> int \<times> int \<times> int" where
  "alignOffsets lPositions rPositions =
     (let w = (if width rPositions > width lPositions then width rPositions
               else width lPositions)
      in (wrap64 (w - width lPositions), wrap64 (w - width rPositions), w))"

text \<open>The offsets of \<^verbatim>\<open>followedby\<close>; \<^verbatim>\<open>rOffset\<close> keeps its zero value.\<close>

definition followedByOffsets ::
  "16 word \<Rightarrow> tsPositionSet \<Rightarrow> tsPositionSet \<Rightarrow> int \<times> int \<times> int" where
  "followedByOffsets followedN lPositions rPositions =
     (let lOffset = wrap64 (uint followedN + width rPositions)
      in (lOffset, 0, wrap64 (lOffset + width lPositions)))"

text \<open>The two \<^verbatim>\<open>switch\<close> statements on the operands' invert flags: the pair
  \<open>(mode, invertResults)\<close>.\<close>

definition orMode :: "bool \<Rightarrow> bool \<Rightarrow> emitMode \<times> bool" where
  "orMode lInvert rInvert =
     (if lInvert \<and> rInvert then (emitMatches, True)
      else if lInvert then (emitLeftUnmatched, True)
      else if rInvert then (emitRightUnmatched, True)
      else (emitMatches OR emitLeftUnmatched OR emitRightUnmatched, False))"

definition andMode :: "bool \<Rightarrow> bool \<Rightarrow> emitMode \<times> bool" where
  "andMode lInvert rInvert =
     (if lInvert \<and> rInvert
      then (emitMatches OR (emitLeftUnmatched OR emitRightUnmatched), True)
      else if lInvert then (emitRightUnmatched, False)
      else if rInvert then (emitLeftUnmatched, False)
      else (emitMatches, False))"

text \<open>The tail shared by the two cases: call the merge, set \<^verbatim>\<open>invert\<close> when
  \<^verbatim>\<open>invertResults\<close> holds, store the width.\<close>

definition mergeWith ::
  "tsPositionSet \<Rightarrow> tsPositionSet \<Rightarrow> int \<times> int \<times> int \<Rightarrow> emitMode \<times> bool
     \<Rightarrow> error + tsPositionSet" where
  "mergeWith lPositions rPositions offs m =
     (case offs of (lOffset, rOffset, w) \<Rightarrow>
      case m of (mode, invertResults) \<Rightarrow>
      case evalFollowedBy lPositions rPositions lOffset rOffset mode of
        Inl err \<Rightarrow> Inl err
      | Inr ret \<Rightarrow>
          Inr ((if invertResults then ret\<lparr>invert := True\<rparr> else ret)\<lparr>width := w\<rparr>))"

definition evalOr :: "tsPositionSet \<Rightarrow> tsPositionSet \<Rightarrow> error + tsPositionSet" where
  "evalOr lPositions rPositions =
     mergeWith lPositions rPositions (alignOffsets lPositions rPositions)
       (orMode (invert lPositions) (invert rPositions))"

definition evalAnd ::
  "tsOperator \<Rightarrow> 16 word \<Rightarrow> tsPositionSet \<Rightarrow> tsPositionSet \<Rightarrow> error + tsPositionSet" where
  "evalAnd opr followedN lPositions rPositions =
     mergeWith lPositions rPositions
       (if opr = followedby then followedByOffsets followedN lPositions rPositions
        else alignOffsets lPositions rPositions)
       (andMode (invert lPositions) (invert rPositions))"

fun evalWithinFollowedBy :: "TSVector \<Rightarrow> tsNode \<Rightarrow> error + tsPositionSet" where
  "evalWithinFollowedBy v (TsNode invalid followedN t l r) = evalLeafWithin v t"
| "evalWithinFollowedBy v (TsNode or_op followedN t l r) =
     (case l of None \<Rightarrow> Inl NilDereference | Some ln \<Rightarrow>
      case evalWithinFollowedBy v ln of Inl err \<Rightarrow> Inl err | Inr lPositions \<Rightarrow>
      case r of None \<Rightarrow> Inl NilDereference | Some rn \<Rightarrow>
      case evalWithinFollowedBy v rn of Inl err \<Rightarrow> Inl err | Inr rPositions \<Rightarrow>
      evalOr lPositions rPositions)"
| "evalWithinFollowedBy v (TsNode not_op followedN t l r) =
     (case l of None \<Rightarrow> Inl NilDereference | Some ln \<Rightarrow>
      case evalWithinFollowedBy v ln of Inl err \<Rightarrow> Inl err | Inr ret \<Rightarrow>
      Inr (ret\<lparr>invert := \<not> invert ret\<rparr>))"
| "evalWithinFollowedBy v (TsNode followedby followedN t l r) =
     (case l of None \<Rightarrow> Inl NilDereference | Some ln \<Rightarrow>
      case evalWithinFollowedBy v ln of Inl err \<Rightarrow> Inl err | Inr lPositions \<Rightarrow>
      case r of None \<Rightarrow> Inl NilDereference | Some rn \<Rightarrow>
      case evalWithinFollowedBy v rn of Inl err \<Rightarrow> Inl err | Inr rPositions \<Rightarrow>
      evalAnd followedby followedN lPositions rPositions)"
| "evalWithinFollowedBy v (TsNode and_op followedN t l r) =
     (case l of None \<Rightarrow> Inl NilDereference | Some ln \<Rightarrow>
      case evalWithinFollowedBy v ln of Inl err \<Rightarrow> Inl err | Inr lPositions \<Rightarrow>
      case r of None \<Rightarrow> Inl NilDereference | Some rn \<Rightarrow>
      case evalWithinFollowedBy v rn of Inl err \<Rightarrow> Inl err | Inr rPositions \<Rightarrow>
      evalAnd and_op followedN lPositions rPositions)"
| "evalWithinFollowedBy v (TsNode (other_op k) followedN t l r) =
     Inl (AssertionFailed (other_op k))"

subsection \<open>evalNode: the Boolean evaluator\<close>

definition evalLeaf :: "TSVector \<Rightarrow> tsTerm \<Rightarrow> error + bool" where
  "evalLeaf v t =
     (let target = lexeme t; i = searchVector v target
      in if i < length v then
           (if prefixMatch t then Inr (HasPrefix (lexeme (v ! i)) target)
            else Inr (lexeme (v ! i) = target))
         else Inr False)"

fun evalNode :: "TSVector \<Rightarrow> tsNode \<Rightarrow> error + bool" where
  "evalNode v (TsNode invalid followedN t l r) = evalLeaf v t"
| "evalNode v (TsNode and_op followedN t l r) =
     (case l of None \<Rightarrow> Inl NilDereference | Some ln \<Rightarrow>
      case evalNode v ln of Inl err \<Rightarrow> Inl err | Inr lb \<Rightarrow>
      if \<not> lb then Inr False
      else case r of None \<Rightarrow> Inl NilDereference | Some rn \<Rightarrow> evalNode v rn)"
| "evalNode v (TsNode or_op followedN t l r) =
     (case l of None \<Rightarrow> Inl NilDereference | Some ln \<Rightarrow>
      case evalNode v ln of Inl err \<Rightarrow> Inl err | Inr lb \<Rightarrow>
      if lb then Inr True
      else case r of None \<Rightarrow> Inl NilDereference | Some rn \<Rightarrow> evalNode v rn)"
| "evalNode v (TsNode not_op followedN t l r) =
     (case l of None \<Rightarrow> Inl NilDereference | Some ln \<Rightarrow>
      case evalNode v ln of Inl err \<Rightarrow> Inl err | Inr ret \<Rightarrow> Inr (\<not> ret))"
| "evalNode v (TsNode followedby followedN t l r) =
     (case evalWithinFollowedBy v (TsNode followedby followedN t l r) of
        Inl err \<Rightarrow> Inl err
      | Inr ps \<Rightarrow> Inr (length (positions ps) > 0))"
| "evalNode v (TsNode (other_op k) followedN t l r) =
     Inl (AssertionFailed (other_op k))"

definition EvalTSQuery :: "TSQuery \<Rightarrow> TSVector \<Rightarrow> error + bool" where
  "EvalTSQuery q v =
     (case root q of None \<Rightarrow> Inl NilDereference | Some node \<Rightarrow> evalNode v node)"

section \<open>Functions of the specification\<close>

text \<open>These functions are not in the source: they say what the loops compute and what
  the claims speak about, and the properties below relate the source's functions to
  them.\<close>

text \<open>What the in-place loop of \<^verbatim>\<open>sortAndUniqTSPositions\<close> keeps of the entries after
  the last kept entry \<open>x\<close>: each entry whose position differs from the last one kept.\<close>

fun uniq_rest :: "tsPosition \<Rightarrow> tsPosition list \<Rightarrow> tsPosition list" where
  "uniq_rest x [] = []"
| "uniq_rest x (y # ys) =
     (if position y \<noteq> position x then y # uniq_rest y ys else uniq_rest x ys)"

definition uniq_adjacent :: "tsPosition list \<Rightarrow> tsPosition list" where
  "uniq_adjacent xs = (case xs of [] \<Rightarrow> [] | x # ys \<Rightarrow> x # uniq_rest x ys)"

text \<open>A position list in normal form: ascending by position, no position twice.\<close>

definition positionsSorted :: "tsPosition list \<Rightarrow> bool" where
  "positionsSorted ps = sorted_wrt (<) (map position ps)"

text \<open>The three exits of the merge loop: both sides exhausted, or one side exhausted
  while the mode does not ask for the other side's unmatched entries.\<close>

definition loopStops :: "tsPosition list \<Rightarrow> tsPosition list \<Rightarrow> emitMode \<Rightarrow> bool" where
  "loopStops ls rs mode =
     ((ls = [] \<and> rs = []) \<or> (ls = [] \<and> mode AND emitRightUnmatched = 0)
      \<or> (rs = [] \<and> mode AND emitLeftUnmatched = 0))"

text \<open>The value the merge compares for an entry, and the position it stores for it: the
  position plus the side's offset as a Go \<^verbatim>\<open>int\<close>, and that sum cut to 16 bits.\<close>

definition adjustedPos :: "int \<Rightarrow> tsPosition \<Rightarrow> int" where
  "adjustedPos offset p = wrap64 (uint (position p) + offset)"

definition storedPos :: "int \<Rightarrow> tsPosition \<Rightarrow> 16 word" where
  "storedPos offset p = word_of_int (uint (position p) + offset)"

text \<open>The occurrence positions of a lexeme in a vector.\<close>

definition occurrences :: "TSVector \<Rightarrow> string \<Rightarrow> 16 word set" where
  "occurrences v lx = (\<Union>e \<in> {e \<in> set v. lexeme e = lx}. position ` set (term_positions e))"

text \<open>The entries with positions \<open>a, \<dots>, b - 1\<close> and no weight, for writing down long
  position lists.\<close>

definition positionRange :: "nat \<Rightarrow> nat \<Rightarrow> tsPosition list" where
  "positionRange a b = map (\<lambda>k. \<lparr>position = of_nat k, weight = 0\<rparr>) [a..<b]"

text \<open>The width a query sub-tree spans, read off the tree: a leaf spans 0, \<open>not\<close> spans
  what its operand spans, \<open>and\<close> and \<open>or\<close> the larger of the two spans, and
  \<open>followed_by\<close> the distance plus both spans.\<close>

fun queryWidth :: "tsNode \<Rightarrow> int" where
  "queryWidth (TsNode opr followedN t l r) =
     (let wl = (case l of None \<Rightarrow> 0 | Some ln \<Rightarrow> queryWidth ln);
          wr = (case r of None \<Rightarrow> 0 | Some rn \<Rightarrow> queryWidth rn)
      in case opr of
           followedby \<Rightarrow> uint followedN + wr + wl
         | and_op \<Rightarrow> max wl wr
         | or_op \<Rightarrow> max wl wr
         | not_op \<Rightarrow> wl
         | _ \<Rightarrow> 0)"

section \<open>Properties\<close>

subsection \<open>Binary search and term lookup\<close>

text \<open>On a predicate that is monotone over the range, \<^verbatim>\<open>sort.Search\<close> returns the least
  index at which it holds, or the upper end of the range.\<close>

lemma Search_loop_spec:
  assumes "i \<le> j"
    and "\<And>a b. i \<le> a \<Longrightarrow> a \<le> b \<Longrightarrow> b < j \<Longrightarrow> f a \<Longrightarrow> f b"
  shows "i \<le> Search_loop f i j \<and> Search_loop f i j \<le> j
       \<and> (\<forall>k. i \<le> k \<and> k < Search_loop f i j \<longrightarrow> \<not> f k)
       \<and> (Search_loop f i j < j \<longrightarrow> f (Search_loop f i j))"
  using assms
proof (induction f i j rule: Search_loop.induct)
  case (1 f i j)
  show ?case
  proof (cases "i < j")
    case False
    then have "Search_loop f i j = i" by (subst Search_loop.simps) simp
    with "1.prems" False show ?thesis by auto
  next
    case True
    define h where "h = (i + j) div 2"
    have hb: "i \<le> h" "h < j" using True by (auto simp: h_def)
    show ?thesis
    proof (cases "f h")
      case fh: True
      have eq: "Search_loop f i j = Search_loop f i h"
        using True fh by (subst Search_loop.simps) (simp add: h_def Let_def)
      have mono: "f b" if "i \<le> a" "a \<le> b" "b < h" "f a" for a b
        using "1.prems"(2) [of a b] that hb by simp
      from "1.IH"(2) [OF True h_def] fh hb(1) mono
      have ih: "i \<le> Search_loop f i h \<and> Search_loop f i h \<le> h
          \<and> (\<forall>k. i \<le> k \<and> k < Search_loop f i h \<longrightarrow> \<not> f k)
          \<and> (Search_loop f i h < h \<longrightarrow> f (Search_loop f i h))"
        by (simp add: h_def)
      have "f (Search_loop f i h)"
      proof (cases "Search_loop f i h < h")
        case True
        with ih show ?thesis by blast
      next
        case False
        with ih have "Search_loop f i h = h" by simp
        with fh show ?thesis by simp
      qed
      with ih hb show ?thesis unfolding eq by simp
    next
      case nfh: False
      have eq: "Search_loop f i j = Search_loop f (h + 1) j"
        using True nfh by (subst Search_loop.simps) (simp add: h_def Let_def)
      have mono: "f b" if "h + 1 \<le> a" "a \<le> b" "b < j" "f a" for a b
        using "1.prems"(2) [of a b] that hb by simp
      have le: "h + 1 \<le> j" using hb by simp
      from "1.IH"(1) [OF True h_def] nfh le mono
      have ih: "h + 1 \<le> Search_loop f (h + 1) j \<and> Search_loop f (h + 1) j \<le> j
          \<and> (\<forall>k. h + 1 \<le> k \<and> k < Search_loop f (h + 1) j \<longrightarrow> \<not> f k)
          \<and> (Search_loop f (h + 1) j < j \<longrightarrow> f (Search_loop f (h + 1) j))"
        by (simp add: h_def)
      have below: "\<not> f k" if "i \<le> k" "k \<le> h" for k
        using "1.prems"(2) [of k h] that hb nfh by blast
      have "\<not> f k" if "i \<le> k" "k < Search_loop f (h + 1) j" for k
      proof (cases "k \<le> h")
        case True
        with below that show ?thesis by blast
      next
        case False
        with ih that show ?thesis by simp
      qed
      with ih hb show ?thesis unfolding eq by simp
    qed
  qed
qed


lemma searchVector_spec:
  assumes "sorted (map lexeme v)"
  shows "searchVector v target \<le> length v"
    and "k < searchVector v target \<Longrightarrow> lexeme (v ! k) < target"
    and "searchVector v target \<le> k \<Longrightarrow> k < length v \<Longrightarrow> target \<le> lexeme (v ! k)"
proof -
  let ?f = "\<lambda>i. target \<le> lexeme (v ! i)"
  let ?r = "Search_loop ?f 0 (length v)"
  have mono: "?f b" if "a \<le> b" "b < length v" "?f a" for a b
  proof -
    have "lexeme (v ! a) \<le> lexeme (v ! b)"
      using sorted_nth_mono [OF assms, of a b] that by simp
    with that show ?thesis by simp
  qed
  have spec: "0 \<le> ?r \<and> ?r \<le> length v \<and> (\<forall>k. 0 \<le> k \<and> k < ?r \<longrightarrow> \<not> ?f k)
      \<and> (?r < length v \<longrightarrow> ?f ?r)"
    by (rule Search_loop_spec) (use mono in auto)
  show "searchVector v target \<le> length v"
    using spec by (simp add: searchVector_def Search_def)
  show "lexeme (v ! k) < target" if "k < searchVector v target"
    using spec that by (simp add: searchVector_def Search_def not_le)
  show "target \<le> lexeme (v ! k)" if "searchVector v target \<le> k" "k < length v"
  proof -
    have "?r < length v" using that by (simp add: searchVector_def Search_def)
    with spec have "?f ?r" by blast
    from mono [OF _ that(2) this] that(1) show ?thesis
      by (simp add: searchVector_def Search_def)
  qed
qed

lemma HasPrefix_iff: "HasPrefix s pre \<longleftrightarrow> prefix pre s"
  by (auto simp: HasPrefix_def prefix_def) (metis append_eq_conv_conj)

lemma prefix_sandwich:
  fixes t s :: "'a::linorder list"
  shows "t \<le> s \<Longrightarrow> s \<le> t @ w \<Longrightarrow> prefix t s"
proof (induction t arbitrary: s)
  case Nil
  then show ?case by simp
next
  case (Cons a t)
  then show ?case by (cases s) (auto split: if_splits)
qed

lemma prefix_imp_le:
  fixes t s :: "'a::linorder list"
  shows "prefix t s \<Longrightarrow> t \<le> s"
proof (induction t arbitrary: s)
  case Nil
  then show ?case by simp
next
  case (Cons a t)
  then show ?case by (cases s) auto
qed


lemma searchVector_exact:
  assumes "sorted (map lexeme v)"
  shows "(searchVector v target < length v \<and> lexeme (v ! searchVector v target) = target)
     \<longleftrightarrow> (\<exists>x\<in>set v. lexeme x = target)"
proof
  assume "searchVector v target < length v \<and> lexeme (v ! searchVector v target) = target"
  then show "\<exists>x\<in>set v. lexeme x = target"
    using nth_mem by blast
next
  let ?i = "searchVector v target"
  assume "\<exists>x\<in>set v. lexeme x = target"
  then obtain k where k: "k < length v" "lexeme (v ! k) = target"
    by (auto simp: in_set_conv_nth)
  have ik: "?i \<le> k"
    using searchVector_spec(2) [OF assms, of k target] k by (cases "k < ?i") auto
  with k have lt: "?i < length v" by simp
  have "lexeme (v ! ?i) \<le> lexeme (v ! k)"
    using sorted_nth_mono [OF assms, of ?i k] ik k by simp
  moreover have "target \<le> lexeme (v ! ?i)"
    using searchVector_spec(3) [OF assms, of target ?i] lt by simp
  ultimately show "?i < length v \<and> lexeme (v ! ?i) = target"
    using lt k by simp
qed

lemma searchVector_prefix:
  assumes "sorted (map lexeme v)"
  shows "(searchVector v target < length v \<and> prefix target (lexeme (v ! searchVector v target)))
     \<longleftrightarrow> (\<exists>x\<in>set v. prefix target (lexeme x))"
proof
  assume "searchVector v target < length v \<and> prefix target (lexeme (v ! searchVector v target))"
  then show "\<exists>x\<in>set v. prefix target (lexeme x)"
    using nth_mem by blast
next
  let ?i = "searchVector v target"
  assume "\<exists>x\<in>set v. prefix target (lexeme x)"
  then obtain k where k: "k < length v" "prefix target (lexeme (v ! k))"
    by (auto simp: in_set_conv_nth)
  from k(2) obtain w where w: "lexeme (v ! k) = target @ w"
    by (auto simp: prefix_def)
  have "target \<le> lexeme (v ! k)" using k(2) by (rule prefix_imp_le)
  then have ik: "?i \<le> k"
    using searchVector_spec(2) [OF assms, of k target] by (cases "k < ?i") auto
  with k have lt: "?i < length v" by simp
  have "lexeme (v ! ?i) \<le> target @ w"
    using sorted_nth_mono [OF assms, of ?i k] ik k w by simp
  moreover have "target \<le> lexeme (v ! ?i)"
    using searchVector_spec(3) [OF assms, of target ?i] lt by simp
  ultimately have "prefix target (lexeme (v ! ?i))"
    by (rule prefix_sandwich [rotated])
  with lt show "?i < length v \<and> prefix target (lexeme (v ! ?i))" by simp
qed

subsection \<open>Leaf exactness\<close>

text \<open>
  Claim C7. For every document vector (its entries in ascending order by lexeme, as the
  data model has them), a leaf without the prefix marker evaluates to true if and only if
  its lexeme is the lexeme of an entry of the vector, and a leaf with the prefix marker
  evaluates to true if and only if the lexeme of some entry has the query lexeme as a
  prefix. The result is always a Boolean, never an error: an absent term yields false.
\<close>

theorem evalNode_leaf:
  assumes "sorted (map lexeme v)"
  shows "(\<not> prefixMatch t \<longrightarrow>
            evalNode v (TsNode invalid n t l r) = Inr (\<exists>x\<in>set v. lexeme x = lexeme t))
       \<and> (prefixMatch t \<longrightarrow>
            evalNode v (TsNode invalid n t l r)
              = Inr (\<exists>x\<in>set v. prefix (lexeme t) (lexeme x)))"
  using searchVector_exact [OF assms, of "lexeme t"]
    searchVector_prefix [OF assms, of "lexeme t"]
  by (auto simp: evalLeaf_def Let_def HasPrefix_iff)

theorem evalNode_leaf_witness:
  "sorted (map lexeme [\<lparr>lexeme = ''catalog'', term_positions = [\<lparr>position = 1, weight = 0\<rparr>]\<rparr>])
   \<and> prefixMatch \<lparr>lexeme = ''cat'', term_positions = [\<lparr>position = 0, weight = weightStar\<rparr>]\<rparr>
   \<and> evalNode [\<lparr>lexeme = ''catalog'', term_positions = [\<lparr>position = 1, weight = 0\<rparr>]\<rparr>]
        (TsNode invalid 0
           \<lparr>lexeme = ''cat'', term_positions = [\<lparr>position = 0, weight = weightStar\<rparr>]\<rparr>
           None None) = Inr True
   \<and> \<not> prefixMatch \<lparr>lexeme = ''cat'', term_positions = []\<rparr>
   \<and> evalNode [\<lparr>lexeme = ''catalog'', term_positions = [\<lparr>position = 1, weight = 0\<rparr>]\<rparr>]
        (TsNode invalid 0 \<lparr>lexeme = ''cat'', term_positions = []\<rparr> None None) = Inr False"
proof -
  let ?v = "[\<lparr>lexeme = ''catalog'', term_positions = [\<lparr>position = 1, weight = 0\<rparr>]\<rparr>]"
  have s: "sorted (map lexeme ?v)" by simp
  from evalNode_leaf [OF s, of
      "\<lparr>lexeme = ''cat'', term_positions = [\<lparr>position = 0, weight = weightStar\<rparr>]\<rparr>"
      0 None None]
    evalNode_leaf [OF s, of "\<lparr>lexeme = ''cat'', term_positions = []\<rparr>" 0 None None]
  show ?thesis by (simp add: prefixMatch_def)
qed

subsection \<open>Negation beneath a proximity operator\<close>

text \<open>
  Claim C6. For every sub-tree \<open>x\<close> and every document vector, the position-set evaluator
  on \<open>not(x)\<close> returns the positions and the width of its result on \<open>x\<close>, with the
  invert flag negated; an error of \<open>x\<close> is handed up unchanged. The right child of the
  node is never read.
\<close>

theorem evalWithinFollowedBy_not:
  "evalWithinFollowedBy v (TsNode not_op n t (Some x) r) =
     (case evalWithinFollowedBy v x of
        Inl err \<Rightarrow> Inl err
      | Inr ps \<Rightarrow> Inr \<lparr>positions = positions ps, width = width ps, invert = \<not> invert ps\<rparr>)"
  by (simp split: sum.splits)

theorem evalWithinFollowedBy_not_witness:
  "evalWithinFollowedBy
     [\<lparr>lexeme = ''cat'', term_positions = [\<lparr>position = 1, weight = 0\<rparr>]\<rparr>]
     (TsNode not_op 0 \<lparr>lexeme = [], term_positions = []\<rparr>
        (Some (TsNode invalid 0 \<lparr>lexeme = ''cat'', term_positions = []\<rparr> None None)) None)
   = Inr \<lparr>positions = [\<lparr>position = 1, weight = 0\<rparr>], width = 0, invert = True\<rparr>"
  using evalWithinFollowedBy_not
    [of "[\<lparr>lexeme = ''cat'', term_positions = [\<lparr>position = 1, weight = 0\<rparr>]\<rparr>]"
        0 "\<lparr>lexeme = [], term_positions = []\<rparr>"
        "TsNode invalid 0 \<lparr>lexeme = ''cat'', term_positions = []\<rparr> None None" None]
  by (simp add: evalLeafWithin_def searchVector_def Search_def Search_loop.simps
      prefixMatch_def emptyPositionSet_def)

subsection \<open>Short-circuit evaluation\<close>

text \<open>
  Claim C8. The Boolean evaluator short-circuits. When the left operand evaluates to
  false, \<open>and(l, r)\<close> is false with no error whatever \<open>r\<close> is (a nil pointer and a node
  with an unknown operator tag included); when the left operand evaluates to true,
  \<open>or(l, r)\<close> is true with no error whatever \<open>r\<close> is. When the left operand does not
  decide the result, a right operand with an unknown operator tag yields the assertion
  failure.
\<close>

theorem evalNode_short_circuit:
  assumes "evalNode v lf = Inr False" and "evalNode v lt = Inr True"
  shows "evalNode v (TsNode and_op n t (Some lf) r) = Inr False
       \<and> evalNode v (TsNode or_op n t (Some lt) r) = Inr True
       \<and> evalNode v (TsNode and_op n t (Some lt) (Some (TsNode (other_op k) n' t' l' r')))
           = Inl (AssertionFailed (other_op k))
       \<and> evalNode v (TsNode or_op n t (Some lf) (Some (TsNode (other_op k) n' t' l' r')))
           = Inl (AssertionFailed (other_op k))"
  using assms by simp

theorem evalNode_short_circuit_witness:
  "evalNode [\<lparr>lexeme = ''cat'', term_positions = []\<rparr>]
     (TsNode invalid 0 \<lparr>lexeme = ''dog'', term_positions = []\<rparr> None None) = Inr False
   \<and> evalNode [\<lparr>lexeme = ''cat'', term_positions = []\<rparr>]
     (TsNode invalid 0 \<lparr>lexeme = ''cat'', term_positions = []\<rparr> None None) = Inr True
   \<and> evalNode [\<lparr>lexeme = ''cat'', term_positions = []\<rparr>]
     (TsNode and_op 0 \<lparr>lexeme = [], term_positions = []\<rparr>
        (Some (TsNode invalid 0 \<lparr>lexeme = ''dog'', term_positions = []\<rparr> None None))
        (Some (TsNode (other_op 5) 0 \<lparr>lexeme = [], term_positions = []\<rparr> None None)))
     = Inr False
   \<and> evalNode [\<lparr>lexeme = ''cat'', term_positions = []\<rparr>]
     (TsNode or_op 0 \<lparr>lexeme = [], term_positions = []\<rparr>
        (Some (TsNode invalid 0 \<lparr>lexeme = ''dog'', term_positions = []\<rparr> None None))
        (Some (TsNode (other_op 5) 0 \<lparr>lexeme = [], term_positions = []\<rparr> None None)))
     = Inl (AssertionFailed (other_op 5))"
proof -
  let ?v = "[\<lparr>lexeme = ''cat'', term_positions = []\<rparr>]"
  let ?dog = "TsNode invalid 0 \<lparr>lexeme = ''dog'', term_positions = []\<rparr> None None"
  let ?cat = "TsNode invalid 0 \<lparr>lexeme = ''cat'', term_positions = []\<rparr> None None"
  have f: "evalNode ?v ?dog = Inr False"
    by (simp add: evalLeaf_def searchVector_def Search_def Search_loop.simps prefixMatch_def)
  have t: "evalNode ?v ?cat = Inr True"
    by (simp add: evalLeaf_def searchVector_def Search_def Search_loop.simps prefixMatch_def)
  from evalNode_short_circuit [OF f t, of 0 "\<lparr>lexeme = [], term_positions = []\<rparr>"
      "Some (TsNode (other_op 5) 0 \<lparr>lexeme = [], term_positions = []\<rparr> None None)"
      5 0 "\<lparr>lexeme = [], term_positions = []\<rparr>" None None] f t
  show ?thesis by simp
qed

subsection \<open>The binary cases of the position-set evaluator\<close>

lemma wrap64_le_MaxInt64: "wrap64 x \<le> MaxInt64"
  unfolding wrap64_def MaxInt64_def
  using pos_mod_bound [of "2 ^ 64" "x + 2 ^ 63"] by simp

lemma wrap64_id: "- (2 ^ 63) \<le> x \<Longrightarrow> x < 2 ^ 63 \<Longrightarrow> wrap64 x = x"
  unfolding wrap64_def by (simp add: mod_pos_pos_trivial)

lemma mergeWith_eq:
  "mergeWith lP rP (lOffset, rOffset, w) (mode, invertResults) =
     Inr \<lparr>positions = evalFollowedBy_loop (positions lP) (positions rP) lOffset rOffset mode,
          width = w, invert = invertResults\<rparr>"
  by (simp add: mergeWith_def evalFollowedBy_def emptyPositionSet_def)

lemma mergeWith_eq':
  "mergeWith lP rP offs m =
     Inr \<lparr>positions = evalFollowedBy_loop (positions lP) (positions rP)
                         (fst offs) (fst (snd offs)) (fst m),
          width = snd (snd offs), invert = snd m\<rparr>"
  by (cases offs; cases m) (simp add: mergeWith_eq)

text \<open>
  Claim C2. For every \<open>and\<close>, \<open>or\<close> and \<open>followed_by\<close> node whose operands evaluate to
  position sets, the merge mode and the invert flag of the result are chosen from the
  operands' invert flags as the table says. For \<open>and\<close> and \<open>followed_by\<close>:
  (false, false) intersection, not inverted; (true, false) right-only, not inverted;
  (false, true) left-only, not inverted; (true, true) all three, inverted. For \<open>or\<close>:
  (false, false) all three, not inverted; (true, false) left-unmatched only, inverted;
  (false, true) right-unmatched only, inverted; (true, true) intersection, inverted.
\<close>

theorem merge_mode_selection:
  assumes "evalWithinFollowedBy v ln = Inr lP" and "evalWithinFollowedBy v rn = Inr rP"
  shows "(opr = and_op \<or> opr = followedby \<longrightarrow>
          evalWithinFollowedBy v (TsNode opr n t (Some ln) (Some rn)) =
            (let offs = (if opr = followedby then followedByOffsets n lP rP
                         else alignOffsets lP rP)
             in Inr \<lparr>positions =
                       evalFollowedBy_loop (positions lP) (positions rP)
                         (fst offs) (fst (snd offs))
                         (if \<not> invert lP \<and> \<not> invert rP then emitMatches
                          else if invert lP \<and> \<not> invert rP then emitRightUnmatched
                          else if \<not> invert lP \<and> invert rP then emitLeftUnmatched
                          else emitMatches OR emitLeftUnmatched OR emitRightUnmatched),
                     width = snd (snd offs),
                     invert = (invert lP \<and> invert rP)\<rparr>))
       \<and> evalWithinFollowedBy v (TsNode or_op n t (Some ln) (Some rn)) =
            (let offs = alignOffsets lP rP
             in Inr \<lparr>positions =
                       evalFollowedBy_loop (positions lP) (positions rP)
                         (fst offs) (fst (snd offs))
                         (if \<not> invert lP \<and> \<not> invert rP
                          then emitMatches OR emitLeftUnmatched OR emitRightUnmatched
                          else if invert lP \<and> \<not> invert rP then emitLeftUnmatched
                          else if \<not> invert lP \<and> invert rP then emitRightUnmatched
                          else emitMatches),
                     width = snd (snd offs),
                     invert = (invert lP \<or> invert rP)\<rparr>)"
  using assms
  by (auto simp: evalAnd_def evalOr_def andMode_def orMode_def mergeWith_eq' Let_def
      emitMatches_def emitLeftUnmatched_def emitRightUnmatched_def)

theorem merge_mode_selection_witness:
  "evalWithinFollowedBy
     [\<lparr>lexeme = ''cat'', term_positions = [\<lparr>position = 1, weight = 0\<rparr>]\<rparr>,
      \<lparr>lexeme = ''dog'', term_positions = [\<lparr>position = 5, weight = 0\<rparr>]\<rparr>]
     (TsNode not_op 0 \<lparr>lexeme = [], term_positions = []\<rparr>
        (Some (TsNode invalid 0 \<lparr>lexeme = ''cat'', term_positions = []\<rparr> None None)) None)
     = Inr \<lparr>positions = [\<lparr>position = 1, weight = 0\<rparr>], width = 0, invert = True\<rparr>
   \<and> evalWithinFollowedBy
     [\<lparr>lexeme = ''cat'', term_positions = [\<lparr>position = 1, weight = 0\<rparr>]\<rparr>,
      \<lparr>lexeme = ''dog'', term_positions = [\<lparr>position = 5, weight = 0\<rparr>]\<rparr>]
     (TsNode invalid 0 \<lparr>lexeme = ''dog'', term_positions = []\<rparr> None None)
     = Inr \<lparr>positions = [\<lparr>position = 5, weight = 0\<rparr>], width = 0, invert = False\<rparr>
   \<and> evalWithinFollowedBy
     [\<lparr>lexeme = ''cat'', term_positions = [\<lparr>position = 1, weight = 0\<rparr>]\<rparr>,
      \<lparr>lexeme = ''dog'', term_positions = [\<lparr>position = 5, weight = 0\<rparr>]\<rparr>]
     (TsNode followedby 1 \<lparr>lexeme = [], term_positions = []\<rparr>
        (Some (TsNode not_op 0 \<lparr>lexeme = [], term_positions = []\<rparr>
           (Some (TsNode invalid 0 \<lparr>lexeme = ''cat'', term_positions = []\<rparr> None None))
           None))
        (Some (TsNode invalid 0 \<lparr>lexeme = ''dog'', term_positions = []\<rparr> None None)))
     = Inr \<lparr>positions = [\<lparr>position = 5, weight = 0\<rparr>], width = 1, invert = False\<rparr>
   \<and> evalWithinFollowedBy
     [\<lparr>lexeme = ''cat'', term_positions = [\<lparr>position = 1, weight = 0\<rparr>]\<rparr>,
      \<lparr>lexeme = ''dog'', term_positions = [\<lparr>position = 5, weight = 0\<rparr>]\<rparr>]
     (TsNode or_op 0 \<lparr>lexeme = [], term_positions = []\<rparr>
        (Some (TsNode not_op 0 \<lparr>lexeme = [], term_positions = []\<rparr>
           (Some (TsNode invalid 0 \<lparr>lexeme = ''cat'', term_positions = []\<rparr> None None))
           None))
        (Some (TsNode invalid 0 \<lparr>lexeme = ''dog'', term_positions = []\<rparr> None None)))
     = Inr \<lparr>positions = [\<lparr>position = 1, weight = 0\<rparr>], width = 0, invert = True\<rparr>"
proof -
  let ?v = "[\<lparr>lexeme = ''cat'', term_positions = [\<lparr>position = 1, weight = 0\<rparr>]\<rparr>,
             \<lparr>lexeme = ''dog'', term_positions = [\<lparr>position = 5, weight = 0\<rparr>]\<rparr>]"
  let ?t = "\<lparr>lexeme = [], term_positions = []\<rparr>"
  let ?ln = "TsNode not_op 0 ?t
      (Some (TsNode invalid 0 \<lparr>lexeme = ''cat'', term_positions = []\<rparr> None None)) None"
  let ?rn = "TsNode invalid 0 \<lparr>lexeme = ''dog'', term_positions = []\<rparr> None None"
  have l: "evalWithinFollowedBy ?v ?ln
      = Inr \<lparr>positions = [\<lparr>position = 1, weight = 0\<rparr>], width = 0, invert = True\<rparr>"
    by (simp add: evalLeafWithin_def searchVector_def Search_def Search_loop.simps
        prefixMatch_def emptyPositionSet_def)
  have r: "evalWithinFollowedBy ?v ?rn
      = Inr \<lparr>positions = [\<lparr>position = 5, weight = 0\<rparr>], width = 0, invert = False\<rparr>"
    by (simp add: evalLeafWithin_def searchVector_def Search_def Search_loop.simps
        prefixMatch_def emptyPositionSet_def)
  from merge_mode_selection [OF l r, of followedby 1 ?t] l r show ?thesis
    by (simp add: alignOffsets_def followedByOffsets_def evalFollowedBy_loop.simps
        cursorPos_def emitIf_def emitMatches_def emitLeftUnmatched_def
        emitRightUnmatched_def wrap64_def MaxInt64_def Let_def)
qed

text \<open>
  Claim C3. For a \<open>followed_by\<close> node the right operand is merged at offset 0, the left
  operand at offset distance + width of the right operand, and the width of the result
  is that left offset + the width of the left operand. For \<open>and\<close> and \<open>or\<close> the common
  width is the maximum of the operands' widths and each side's offset is the common
  width minus its own width. The sums and differences are those of Go's \<^verbatim>\<open>int\<close>; the
  last conjunct says that they are the mathematical ones whenever the widths are not
  negative and the width of the result stays below \<open>2 ^ 63\<close>.
\<close>

theorem merge_offsets_and_width:
  assumes "evalWithinFollowedBy v ln = Inr lP" and "evalWithinFollowedBy v rn = Inr rP"
  shows "evalWithinFollowedBy v (TsNode followedby n t (Some ln) (Some rn)) =
           Inr \<lparr>positions =
                  evalFollowedBy_loop (positions lP) (positions rP)
                    (wrap64 (uint n + width rP)) 0
                    (fst (andMode (invert lP) (invert rP))),
                width = wrap64 (wrap64 (uint n + width rP) + width lP),
                invert = snd (andMode (invert lP) (invert rP))\<rparr>
       \<and> (opr = and_op \<or> opr = or_op \<longrightarrow>
            evalWithinFollowedBy v (TsNode opr n t (Some ln) (Some rn)) =
              (let m = (if opr = or_op then orMode (invert lP) (invert rP)
                        else andMode (invert lP) (invert rP))
               in Inr \<lparr>positions =
                         evalFollowedBy_loop (positions lP) (positions rP)
                           (wrap64 (max (width lP) (width rP) - width lP))
                           (wrap64 (max (width lP) (width rP) - width rP))
                           (fst m),
                       width = max (width lP) (width rP),
                       invert = snd m\<rparr>))
       \<and> (0 \<le> width lP \<and> 0 \<le> width rP \<and> uint n + width rP + width lP < 2 ^ 63 \<longrightarrow>
            wrap64 (uint n + width rP) = uint n + width rP
          \<and> wrap64 (wrap64 (uint n + width rP) + width lP) = uint n + width rP + width lP
          \<and> wrap64 (max (width lP) (width rP) - width lP) = max (width lP) (width rP) - width lP
          \<and> wrap64 (max (width lP) (width rP) - width rP) = max (width lP) (width rP) - width rP)"
proof (intro conjI impI)
  show "evalWithinFollowedBy v (TsNode followedby n t (Some ln) (Some rn)) =
           Inr \<lparr>positions =
                  evalFollowedBy_loop (positions lP) (positions rP)
                    (wrap64 (uint n + width rP)) 0
                    (fst (andMode (invert lP) (invert rP))),
                width = wrap64 (wrap64 (uint n + width rP) + width lP),
                invert = snd (andMode (invert lP) (invert rP))\<rparr>"
    using assms by (simp add: evalAnd_def mergeWith_eq' followedByOffsets_def Let_def)
next
  assume "opr = and_op \<or> opr = or_op"
  then show "evalWithinFollowedBy v (TsNode opr n t (Some ln) (Some rn)) =
              (let m = (if opr = or_op then orMode (invert lP) (invert rP)
                        else andMode (invert lP) (invert rP))
               in Inr \<lparr>positions =
                         evalFollowedBy_loop (positions lP) (positions rP)
                           (wrap64 (max (width lP) (width rP) - width lP))
                           (wrap64 (max (width lP) (width rP) - width rP))
                           (fst m),
                       width = max (width lP) (width rP),
                       invert = snd m\<rparr>)"
    using assms
    by (auto simp: evalAnd_def evalOr_def mergeWith_eq' alignOffsets_def Let_def max_def)
next
  assume b: "0 \<le> width lP \<and> 0 \<le> width rP \<and> uint n + width rP + width lP < 2 ^ 63"
  have n0: "0 \<le> uint n" by simp
  show "wrap64 (uint n + width rP) = uint n + width rP"
    using b n0 by (intro wrap64_id) linarith+
  then show "wrap64 (wrap64 (uint n + width rP) + width lP) = uint n + width rP + width lP"
    using b n0 by (simp only:) (intro wrap64_id; linarith)
  have c: "width lP < 2 ^ 63" "width rP < 2 ^ 63"
    using b n0 by linarith+
  show "wrap64 (max (width lP) (width rP) - width lP) = max (width lP) (width rP) - width lP"
    using b c by (intro wrap64_id) (auto simp: max_def)
  show "wrap64 (max (width lP) (width rP) - width rP) = max (width lP) (width rP) - width rP"
    using b c by (intro wrap64_id) (auto simp: max_def)
qed

theorem merge_offsets_and_width_witness:
  "evalWithinFollowedBy
     [\<lparr>lexeme = ''cat'', term_positions = [\<lparr>position = 1, weight = 0\<rparr>]\<rparr>,
      \<lparr>lexeme = ''dog'', term_positions = [\<lparr>position = 3, weight = 0\<rparr>]\<rparr>]
     (TsNode invalid 0 \<lparr>lexeme = ''cat'', term_positions = []\<rparr> None None)
     = Inr \<lparr>positions = [\<lparr>position = 1, weight = 0\<rparr>], width = 0, invert = False\<rparr>
   \<and> evalWithinFollowedBy
     [\<lparr>lexeme = ''cat'', term_positions = [\<lparr>position = 1, weight = 0\<rparr>]\<rparr>,
      \<lparr>lexeme = ''dog'', term_positions = [\<lparr>position = 3, weight = 0\<rparr>]\<rparr>]
     (TsNode invalid 0 \<lparr>lexeme = ''dog'', term_positions = []\<rparr> None None)
     = Inr \<lparr>positions = [\<lparr>position = 3, weight = 0\<rparr>], width = 0, invert = False\<rparr>
   \<and> evalWithinFollowedBy
     [\<lparr>lexeme = ''cat'', term_positions = [\<lparr>position = 1, weight = 0\<rparr>]\<rparr>,
      \<lparr>lexeme = ''dog'', term_positions = [\<lparr>position = 3, weight = 0\<rparr>]\<rparr>]
     (TsNode followedby 2 \<lparr>lexeme = [], term_positions = []\<rparr>
        (Some (TsNode invalid 0 \<lparr>lexeme = ''cat'', term_positions = []\<rparr> None None))
        (Some (TsNode invalid 0 \<lparr>lexeme = ''dog'', term_positions = []\<rparr> None None)))
     = Inr \<lparr>positions = [\<lparr>position = 3, weight = 0\<rparr>], width = 2, invert = False\<rparr>
   \<and> evalWithinFollowedBy
     [\<lparr>lexeme = ''cat'', term_positions = [\<lparr>position = 1, weight = 0\<rparr>]\<rparr>,
      \<lparr>lexeme = ''dog'', term_positions = [\<lparr>position = 3, weight = 0\<rparr>]\<rparr>]
     (TsNode or_op 2 \<lparr>lexeme = [], term_positions = []\<rparr>
        (Some (TsNode invalid 0 \<lparr>lexeme = ''cat'', term_positions = []\<rparr> None None))
        (Some (TsNode invalid 0 \<lparr>lexeme = ''dog'', term_positions = []\<rparr> None None)))
     = Inr \<lparr>positions = [\<lparr>position = 1, weight = 0\<rparr>, \<lparr>position = 3, weight = 0\<rparr>],
            width = 0, invert = False\<rparr>"
proof -
  let ?v = "[\<lparr>lexeme = ''cat'', term_positions = [\<lparr>position = 1, weight = 0\<rparr>]\<rparr>,
             \<lparr>lexeme = ''dog'', term_positions = [\<lparr>position = 3, weight = 0\<rparr>]\<rparr>]"
  let ?t = "\<lparr>lexeme = [], term_positions = []\<rparr>"
  let ?ln = "TsNode invalid 0 \<lparr>lexeme = ''cat'', term_positions = []\<rparr> None None"
  let ?rn = "TsNode invalid 0 \<lparr>lexeme = ''dog'', term_positions = []\<rparr> None None"
  have l: "evalWithinFollowedBy ?v ?ln
      = Inr \<lparr>positions = [\<lparr>position = 1, weight = 0\<rparr>], width = 0, invert = False\<rparr>"
    by (simp add: evalLeafWithin_def searchVector_def Search_def Search_loop.simps
        prefixMatch_def emptyPositionSet_def)
  have r: "evalWithinFollowedBy ?v ?rn
      = Inr \<lparr>positions = [\<lparr>position = 3, weight = 0\<rparr>], width = 0, invert = False\<rparr>"
    by (simp add: evalLeafWithin_def searchVector_def Search_def Search_loop.simps
        prefixMatch_def emptyPositionSet_def)
  from merge_offsets_and_width [OF l r, of 2 ?t or_op] l r show ?thesis
    by (simp add: andMode_def orMode_def evalFollowedBy_loop.simps
        cursorPos_def emitIf_def emitMatches_def emitLeftUnmatched_def
        emitRightUnmatched_def wrap64_def MaxInt64_def Let_def)
qed

subsection \<open>The position-set normalizer\<close>

text \<open>The in-place loop keeps, behind the entries already kept, the entries of the rest
  whose position differs from the last one kept.\<close>

lemma uniq_loop_spec:
  assumes "lu < j" and "j \<le> length pos"
  shows "length (fst (uniq_loop pos lu j)) = length pos
       \<and> snd (uniq_loop pos lu j) < length pos
       \<and> take (snd (uniq_loop pos lu j) + 1) (fst (uniq_loop pos lu j))
           = take (lu + 1) pos @ uniq_rest (pos ! lu) (drop j pos)"
  using assms
proof (induction pos lu j rule: uniq_loop.induct)
  case (1 pos lu j)
  show ?case
  proof (cases "j < length pos")
    case False
    then have "uniq_loop pos lu j = (pos, lu)" by (subst uniq_loop.simps) simp
    with False "1.prems" show ?thesis by simp
  next
    case True
    have dr: "drop j pos = pos ! j # drop (j + 1) pos"
      using True by (simp add: Cons_nth_drop_Suc)
    show ?thesis
    proof (cases "position (pos ! j) \<noteq> position (pos ! lu)")
      case ne: True
      let ?pos2 = "pos[lu + 1 := pos ! j]"
      have eq: "uniq_loop pos lu j = uniq_loop ?pos2 (lu + 1) (j + 1)"
        using True ne by (subst uniq_loop.simps) simp
      have ih: "length (fst (uniq_loop ?pos2 (lu + 1) (j + 1))) = length ?pos2
          \<and> snd (uniq_loop ?pos2 (lu + 1) (j + 1)) < length ?pos2
          \<and> take (snd (uniq_loop ?pos2 (lu + 1) (j + 1)) + 1)
                (fst (uniq_loop ?pos2 (lu + 1) (j + 1)))
              = take (lu + 1 + 1) ?pos2 @ uniq_rest (?pos2 ! (lu + 1)) (drop (j + 1) ?pos2)"
        using "1.IH"(1) [OF True ne] "1.prems" True by simp
      have lt: "lu + 1 < length pos" using "1.prems" True by simp
      have a: "take (lu + 1 + 1) ?pos2 = take (lu + 1) pos @ [pos ! j]"
        using lt by (simp add: take_Suc_conv_app_nth)
      have b: "?pos2 ! (lu + 1) = pos ! j" using lt by simp
      have c: "drop (j + 1) ?pos2 = drop (j + 1) pos"
        using "1.prems" by simp
      show ?thesis unfolding eq using ih a b c dr ne by simp
    next
      case eqp: False
      have eq: "uniq_loop pos lu j = uniq_loop pos lu (j + 1)"
        using True eqp by (subst uniq_loop.simps) simp
      have ih: "length (fst (uniq_loop pos lu (j + 1))) = length pos
          \<and> snd (uniq_loop pos lu (j + 1)) < length pos
          \<and> take (snd (uniq_loop pos lu (j + 1)) + 1) (fst (uniq_loop pos lu (j + 1)))
              = take (lu + 1) pos @ uniq_rest (pos ! lu) (drop (j + 1) pos)"
        using "1.IH"(2) [OF True eqp] "1.prems" True by simp
      show ?thesis unfolding eq using ih dr eqp by simp
    qed
  qed
qed

lemma sortAndUniqTSPositions_eq:
  "sortAndUniqTSPositions pos
     = take maxTSVectorPositions (uniq_adjacent (sort_key position pos))"
proof (cases "length pos \<le> 1")
  case True
  then have "pos = [] \<or> (\<exists>x. pos = [x])"
    by (cases pos) (auto simp: length_Suc_conv)
  then show ?thesis
    by (auto simp: sortAndUniqTSPositions_def uniq_adjacent_def maxTSVectorPositions_def)
next
  case False
  let ?sp = "sort_key position pos"
  have len: "1 < length ?sp" using False by simp
  then obtain x ys where sp: "?sp = x # ys" by (cases ?sp) auto
  have "take (snd (uniq_loop ?sp 0 1) + 1) (fst (uniq_loop ?sp 0 1))
      = take (0 + 1) ?sp @ uniq_rest (?sp ! 0) (drop 1 ?sp)"
    using uniq_loop_spec [of 0 1 ?sp] len by simp
  also have "\<dots> = uniq_adjacent ?sp"
    by (simp add: sp uniq_adjacent_def)
  finally have key:
    "take (snd (uniq_loop ?sp 0 1) + 1) (fst (uniq_loop ?sp 0 1)) = uniq_adjacent ?sp" .
  show ?thesis
    unfolding sortAndUniqTSPositions_def sort_Slice_def Let_def split_beta key
    using False by simp
qed


lemma uniq_rest_positions:
  "map position (x # uniq_rest x ys) = remdups_adj (map position (x # ys))"
proof (induction ys arbitrary: x)
  case Nil
  show ?case by simp
next
  case (Cons y ys)
  show ?case
  proof (cases "position y = position x")
    case True
    with Cons [of x] show ?thesis by simp
  next
    case False
    with Cons [of y] show ?thesis by simp
  qed
qed

lemma uniq_adjacent_positions:
  "map position (uniq_adjacent xs) = remdups_adj (map position xs)"
  using uniq_rest_positions by (cases xs) (simp_all add: uniq_adjacent_def)

lemma uniq_rest_id:
  "positionsSorted (x # ys) \<Longrightarrow> uniq_rest x ys = ys"
  by (induction ys arbitrary: x) (auto simp: positionsSorted_def)

lemma uniq_adjacent_id: "positionsSorted xs \<Longrightarrow> uniq_adjacent xs = xs"
  by (cases xs) (simp_all add: uniq_adjacent_def uniq_rest_id)

lemma strict_sorted_remdups_adj:
  fixes xs :: "'a::linorder list"
  shows "sorted xs \<Longrightarrow> sorted_wrt (<) (remdups_adj xs)"
proof (induction xs rule: remdups_adj.induct)
  case (3 x y xs)
  then show ?case
    by (cases "x = y") (auto simp: less_le)
qed simp_all

lemma positionsSorted_uniq_adjacent:
  "sorted (map position xs) \<Longrightarrow> positionsSorted (uniq_adjacent xs)"
  by (simp add: positionsSorted_def uniq_adjacent_positions strict_sorted_remdups_adj)

lemma positionsSorted_take: "positionsSorted xs \<Longrightarrow> positionsSorted (take n xs)"
  unfolding positionsSorted_def take_map [symmetric]
  by (metis append_take_drop_id sorted_wrt_append)

lemma positionsSorted_sortAndUniq: "positionsSorted (sortAndUniqTSPositions pos)"
  by (simp add: sortAndUniqTSPositions_eq positionsSorted_take positionsSorted_uniq_adjacent)

lemma length_sortAndUniq: "length (sortAndUniqTSPositions pos) \<le> maxTSVectorPositions"
  by (simp add: sortAndUniqTSPositions_eq)

lemma sortAndUniq_positions:
  "map position (sortAndUniqTSPositions pos)
     = take maxTSVectorPositions (remdups_adj (sort (map position pos)))"
proof -
  have ins: "map position (insort_key position x ys) = insort (position x) (map position ys)"
    for x ys
    by (induction ys) simp_all
  have "map position (sort_key position pos) = sort (map position pos)"
    by (induction pos) (simp_all add: ins)
  then show ?thesis
    unfolding sortAndUniqTSPositions_eq take_map [symmetric] uniq_adjacent_positions
    by simp
qed

text \<open>
  Claim C9. The normalizer leaves a normal form alone: on a position list that is
  ascending by position, has no position twice and has at most \<open>MAX_POSITIONS\<close>
  entries, \<^verbatim>\<open>sortAndUniqTSPositions\<close> returns its input.
\<close>

theorem sortAndUniqTSPositions_idempotent:
  assumes "positionsSorted pos" and "length pos \<le> maxTSVectorPositions"
  shows "sortAndUniqTSPositions pos = pos"
proof -
  have "sorted (map position pos)"
    using assms(1) by (simp add: positionsSorted_def strict_sorted_iff)
  then have "sort_key position pos = pos" by (rule sort_key_id_if_sorted)
  with assms show ?thesis
    by (simp add: sortAndUniqTSPositions_eq uniq_adjacent_id)
qed

theorem sortAndUniqTSPositions_idempotent_witness:
  "positionsSorted [\<lparr>position = 1, weight = 0\<rparr>, \<lparr>position = 3, weight = 8\<rparr>]
   \<and> length [\<lparr>position = 1, weight = 0\<rparr>, \<lparr>position = 3, weight = 8\<rparr>]
       \<le> maxTSVectorPositions
   \<and> sortAndUniqTSPositions [\<lparr>position = 1, weight = 0\<rparr>, \<lparr>position = 3, weight = 8\<rparr>]
       = [\<lparr>position = 1, weight = 0\<rparr>, \<lparr>position = 3, weight = 8\<rparr>]"
proof -
  have a: "positionsSorted [\<lparr>position = 1, weight = 0\<rparr>, \<lparr>position = 3, weight = 8\<rparr>]"
    by (simp add: positionsSorted_def)
  have b: "length [\<lparr>position = 1, weight = 0\<rparr>, \<lparr>position = 3, weight = 8\<rparr>]
      \<le> maxTSVectorPositions"
    by (simp add: maxTSVectorPositions_def)
  from sortAndUniqTSPositions_idempotent [OF a b] a b show ?thesis by simp
qed

subsection \<open>The merge loop\<close>

text \<open>One step of the loop, by the branch it takes, and the induction that follows the
  loop.\<close>

lemma cursorPos_le: "cursorPos xs offset \<le> MaxInt64"
  by (simp add: cursorPos_def wrap64_le_MaxInt64)

lemma cursorPos_Cons [simp]: "cursorPos (x # xs) offset = adjustedPos offset x"
  by (simp add: cursorPos_def adjustedPos_def)

lemma cursorPos_Nil [simp]: "cursorPos [] offset = MaxInt64"
  by (simp add: cursorPos_def)

lemma adjustedPos_le: "adjustedPos offset p \<le> MaxInt64"
  by (simp add: adjustedPos_def wrap64_le_MaxInt64)

lemma loop_stop:
  "loopStops ls rs mode \<Longrightarrow> evalFollowedBy_loop ls rs lOffset rOffset mode = []"
  by (subst evalFollowedBy_loop.simps) (auto simp: loopStops_def)

lemma loop_lt:
  assumes "\<not> loopStops ls rs mode" and "cursorPos ls lOffset < cursorPos rs rOffset"
  shows "evalFollowedBy_loop ls rs lOffset rOffset mode =
          emitIf (mode AND emitLeftUnmatched > 0) (cursorPos ls lOffset)
            @ evalFollowedBy_loop (tl ls) rs lOffset rOffset mode"
proof -
  from assms(1) have "\<not> (ls = [] \<and> rs = [])" "\<not> (ls = [] \<and> mode AND emitRightUnmatched = 0)"
    "\<not> (rs = [] \<and> mode AND emitLeftUnmatched = 0)"
    by (auto simp: loopStops_def)
  then show ?thesis
    by (subst evalFollowedBy_loop.simps) (simp only: assms(2) if_False if_True)
qed

lemma loop_eq:
  assumes "\<not> loopStops ls rs mode" and "cursorPos ls lOffset = cursorPos rs rOffset"
  shows "evalFollowedBy_loop ls rs lOffset rOffset mode =
          emitIf (mode AND emitMatches > 0) (cursorPos rs rOffset)
            @ evalFollowedBy_loop (tl ls) (tl rs) lOffset rOffset mode"
proof -
  from assms(1) have "\<not> (ls = [] \<and> rs = [])" "\<not> (ls = [] \<and> mode AND emitRightUnmatched = 0)"
    "\<not> (rs = [] \<and> mode AND emitLeftUnmatched = 0)"
    by (auto simp: loopStops_def)
  then show ?thesis
    by (subst evalFollowedBy_loop.simps)
      (simp only: assms(2) if_False if_True simp_thms less_irrefl)
qed

lemma loop_gt:
  assumes "\<not> loopStops ls rs mode" and "cursorPos rs rOffset < cursorPos ls lOffset"
  shows "evalFollowedBy_loop ls rs lOffset rOffset mode =
          emitIf (mode AND emitRightUnmatched > 0) (cursorPos rs rOffset)
            @ evalFollowedBy_loop ls (tl rs) lOffset rOffset mode"
proof -
  from assms(1) have "\<not> (ls = [] \<and> rs = [])" "\<not> (ls = [] \<and> mode AND emitRightUnmatched = 0)"
    "\<not> (rs = [] \<and> mode AND emitLeftUnmatched = 0)"
    by (auto simp: loopStops_def)
  moreover from assms(2) have "\<not> cursorPos ls lOffset < cursorPos rs rOffset"
    "cursorPos ls lOffset \<noteq> cursorPos rs rOffset" by simp_all
  ultimately show ?thesis
    by (subst evalFollowedBy_loop.simps) (simp only: if_False if_True)
qed

lemma loop_induct [case_names stop lt eq gt]:
  assumes stop: "\<And>ls rs. loopStops ls rs mode \<Longrightarrow> P ls rs"
    and lt: "\<And>x xs rs. \<not> loopStops (x # xs) rs mode \<Longrightarrow>
        adjustedPos lOffset x < cursorPos rs rOffset \<Longrightarrow> P xs rs \<Longrightarrow> P (x # xs) rs"
    and eq: "\<And>ls rs. \<not> loopStops ls rs mode \<Longrightarrow>
        cursorPos ls lOffset = cursorPos rs rOffset \<Longrightarrow> P (tl ls) (tl rs) \<Longrightarrow> P ls rs"
    and gt: "\<And>ls y ys. \<not> loopStops ls (y # ys) mode \<Longrightarrow>
        adjustedPos rOffset y < cursorPos ls lOffset \<Longrightarrow> P ls ys \<Longrightarrow> P ls (y # ys)"
  shows "P ls rs"
proof -
  have "lo = lOffset \<Longrightarrow> ro = rOffset \<Longrightarrow> m = mode \<Longrightarrow> P ls rs" for lo ro m
  proof (induction ls rs lo ro m rule: evalFollowedBy_loop.induct)
    case (1 ls rs lo ro m)
    note [simp] = "1.prems"
    show ?case
    proof (cases "loopStops ls rs mode")
      case True
      then show ?thesis by (rule stop)
    next
      case False
      then have go: "\<not> (ls = [] \<and> rs = [])" "\<not> (ls = [] \<and> m AND emitRightUnmatched = 0)"
        "\<not> (rs = [] \<and> m AND emitLeftUnmatched = 0)"
        by (auto simp: loopStops_def)
      consider (a) "cursorPos ls lo < cursorPos rs ro"
        | (b) "cursorPos ls lo = cursorPos rs ro"
        | (c) "cursorPos rs ro < cursorPos ls lo"
        by linarith
      then show ?thesis
      proof cases
        case a
        with cursorPos_le [of rs ro] obtain x xs where ls: "ls = x # xs"
          by (cases ls) auto
        have "P (tl ls) rs" using "1.IH"(1) [OF go a] by simp
        with lt [of x xs rs] False a ls show ?thesis by simp
      next
        case b
        then have "\<not> cursorPos ls lo < cursorPos rs ro" by simp
        from "1.IH"(2) [OF go this b] have "P (tl ls) (tl rs)" by simp
        with eq [of ls rs] False b show ?thesis by simp
      next
        case c
        with cursorPos_le [of ls lo] obtain y ys where rs: "rs = y # ys"
          by (cases rs) auto
        from c have "\<not> cursorPos ls lo < cursorPos rs ro"
          "cursorPos ls lo \<noteq> cursorPos rs ro" by simp_all
        from "1.IH"(3) [OF go this] have "P ls (tl rs)" by simp
        with gt [of ls y ys] False c rs show ?thesis by simp
      qed
    qed
  qed
  then show ?thesis by simp
qed


lemma word_of_int_wrap64: "(word_of_int (wrap64 z) :: 16 word) = word_of_int z"
proof -
  have d: "(2 ^ 16 :: int) dvd 2 ^ 64" by (rule le_imp_power_dvd) simp
  have z: "(2 ^ 63 :: int) mod 2 ^ 16 = 0" by simp
  have "((z + 2 ^ 63) mod 2 ^ 64 - 2 ^ 63) mod 2 ^ 16
      = ((z + 2 ^ 63) mod 2 ^ 64 mod 2 ^ 16 - 2 ^ 63 mod 2 ^ 16) mod 2 ^ 16"
    by (simp only: mod_diff_eq)
  also have "(z + 2 ^ 63) mod 2 ^ 64 mod 2 ^ 16 = (z + 2 ^ 63) mod 2 ^ 16"
    using d by (rule mod_mod_cancel)
  also have "((z + 2 ^ 63) mod 2 ^ 16 - 2 ^ 63 mod 2 ^ 16) mod 2 ^ 16
      = (z + 2 ^ 63 - 2 ^ 63) mod 2 ^ 16"
    by (simp only: mod_diff_eq)
  finally have "wrap64 z mod 2 ^ 16 = z mod 2 ^ 16"
    by (simp add: wrap64_def)
  then show ?thesis
    by (simp add: word_of_int_eq_iff take_bit_eq_mod)
qed

lemma emitIf_storedPos:
  "emitIf c (adjustedPos offset p) = (if c then [\<lparr>position = storedPos offset p, weight = 0\<rparr>] else [])"
  by (simp add: emitIf_def adjustedPos_def storedPos_def word_of_int_wrap64)

lemma uint_storedPos: "uint (storedPos offset p) = (uint (position p) + offset) mod 2 ^ 16"
  unfolding storedPos_def uint_word_of_int by simp

lemma length_evalFollowedBy_loop:
  "length (evalFollowedBy_loop ls rs lOffset rOffset mode) \<le> length ls + length rs"
proof (induction ls rs rule: loop_induct [where lOffset = lOffset and rOffset = rOffset
      and mode = mode])
  case (stop ls rs)
  then show ?case by (simp add: loop_stop)
next
  case (lt x xs rs)
  then show ?case by (simp add: loop_lt emitIf_def)
next
  case (eq ls rs)
  then have "\<not> (ls = [] \<and> rs = [])" by (auto simp: loopStops_def)
  then have "length (tl ls) + length (tl rs) + 1 \<le> length ls + length rs"
    by (cases ls; cases rs) simp_all
  with eq show ?case by (simp add: loop_eq emitIf_def)
next
  case (gt ls y ys)
  then show ?case by (simp add: loop_gt emitIf_def)
qed

lemma set_emitIf:
  "set (emitIf c (adjustedPos offset p)) \<subseteq> {\<lparr>position = storedPos offset p, weight = 0\<rparr>}"
  by (cases c) (simp_all add: emitIf_storedPos)

lemma set_tl_subset: "set (tl xs) \<subseteq> set xs"
  by (cases xs) auto

lemma loop_origin_any:
  "set (evalFollowedBy_loop ls rs lOffset rOffset mode)
     \<subseteq> (\<lambda>p. \<lparr>position = storedPos lOffset p, weight = 0\<rparr>) ` set ls
       \<union> (\<lambda>p. \<lparr>position = storedPos rOffset p, weight = 0\<rparr>) ` set rs"
  (is "?S ls rs \<subseteq> ?L ls \<union> ?R rs")
proof (induction ls rs rule: loop_induct [where lOffset = lOffset and rOffset = rOffset
      and mode = mode])
  case (stop ls rs)
  then show ?case by (simp add: loop_stop)
next
  case (lt x xs rs)
  have "?S (x # xs) rs = set (emitIf (mode AND emitLeftUnmatched > 0) (adjustedPos lOffset x))
      \<union> ?S xs rs"
    using lt.hyps by (simp add: loop_lt)
  with lt.IH set_emitIf [of "mode AND emitLeftUnmatched > 0" lOffset x]
  show ?case by auto
next
  case (eq ls rs)
  have S: "?S ls rs = set (emitIf (mode AND emitMatches > 0) (cursorPos rs rOffset))
      \<union> ?S (tl ls) (tl rs)"
    using eq.hyps by (simp add: loop_eq)
  have mono: "?L (tl ls) \<union> ?R (tl rs) \<subseteq> ?L ls \<union> ?R rs"
    using set_tl_subset [of ls] set_tl_subset [of rs] by blast
  have "set (emitIf (mode AND emitMatches > 0) (cursorPos rs rOffset)) \<subseteq> ?L ls \<union> ?R rs"
  proof (cases rs)
    case Nil
    with eq.hyps obtain x xs where ls: "ls = x # xs"
      by (cases ls) (auto simp: loopStops_def)
    have "cursorPos rs rOffset = adjustedPos lOffset x"
      using eq.hyps(2) ls by simp
    with set_emitIf [of "mode AND emitMatches > 0" lOffset x] ls show ?thesis by auto
  next
    case (Cons y ys)
    with set_emitIf [of "mode AND emitMatches > 0" rOffset y] show ?thesis by auto
  qed
  with S eq.IH mono show ?case by blast
next
  case (gt ls y ys)
  have "?S ls (y # ys) = set (emitIf (mode AND emitRightUnmatched > 0) (adjustedPos rOffset y))
      \<union> ?S ls ys"
    using gt.hyps by (simp add: loop_gt)
  with gt.IH set_emitIf [of "mode AND emitRightUnmatched > 0" rOffset y]
  show ?case by auto
qed

lemma loop_origin_right:
  assumes "mode AND emitLeftUnmatched = 0"
  shows "set (evalFollowedBy_loop ls rs lOffset rOffset mode)
     \<subseteq> (\<lambda>p. \<lparr>position = storedPos rOffset p, weight = 0\<rparr>) ` set rs"
  (is "?S ls rs \<subseteq> ?R rs")
proof (induction ls rs rule: loop_induct [where lOffset = lOffset and rOffset = rOffset
      and mode = mode])
  case (stop ls rs)
  then show ?case by (simp add: loop_stop)
next
  case (lt x xs rs)
  have "?S (x # xs) rs = ?S xs rs"
    using lt.hyps assms by (simp add: loop_lt emitIf_def)
  with lt.IH show ?case by simp
next
  case (eq ls rs)
  from eq.hyps(1) assms obtain y ys where rs: "rs = y # ys"
    by (cases rs) (auto simp: loopStops_def)
  have S: "?S ls rs = set (emitIf (mode AND emitMatches > 0) (adjustedPos rOffset y))
      \<union> ?S (tl ls) ys"
    using eq.hyps rs by (simp add: loop_eq)
  with eq.IH rs set_emitIf [of "mode AND emitMatches > 0" rOffset y] show ?case by auto
next
  case (gt ls y ys)
  have "?S ls (y # ys) = set (emitIf (mode AND emitRightUnmatched > 0) (adjustedPos rOffset y))
      \<union> ?S ls ys"
    using gt.hyps by (simp add: loop_gt)
  with gt.IH set_emitIf [of "mode AND emitRightUnmatched > 0" rOffset y]
  show ?case by auto
qed

lemma loop_origin_left:
  assumes "mode AND emitMatches = 0" and "mode AND emitRightUnmatched = 0"
  shows "set (evalFollowedBy_loop ls rs lOffset rOffset mode)
     \<subseteq> (\<lambda>p. \<lparr>position = storedPos lOffset p, weight = 0\<rparr>) ` set ls"
  (is "?S ls rs \<subseteq> ?L ls")
proof (induction ls rs rule: loop_induct [where lOffset = lOffset and rOffset = rOffset
      and mode = mode])
  case (stop ls rs)
  then show ?case by (simp add: loop_stop)
next
  case (lt x xs rs)
  have "?S (x # xs) rs = set (emitIf (mode AND emitLeftUnmatched > 0) (adjustedPos lOffset x))
      \<union> ?S xs rs"
    using lt.hyps by (simp add: loop_lt)
  with lt.IH set_emitIf [of "mode AND emitLeftUnmatched > 0" lOffset x]
  show ?case by auto
next
  case (eq ls rs)
  have "?S ls rs = ?S (tl ls) (tl rs)"
    using eq.hyps assms by (simp add: loop_eq emitIf_def)
  with eq.IH set_tl_subset [of ls] show ?case by blast
next
  case (gt ls y ys)
  have "?S ls (y # ys) = ?S ls ys"
    using gt.hyps assms by (simp add: loop_gt emitIf_def)
  with gt.IH show ?case by simp
qed

subsection \<open>Proximity exactness\<close>

text \<open>In the mode that emits matches only, the merge of two lists that ascend in their
  adjusted positions is non-empty exactly when some left entry and some right entry have
  the same adjusted position.\<close>

lemma loopStops_emitMatches: "loopStops ls rs emitMatches \<longleftrightarrow> ls = [] \<or> rs = []"
  by (auto simp: loopStops_def emitMatches_def emitLeftUnmatched_def emitRightUnmatched_def)

lemma loop_matches_nonempty_iff:
  assumes "sorted (map (adjustedPos lOffset) ls)" and "sorted (map (adjustedPos rOffset) rs)"
  shows "evalFollowedBy_loop ls rs lOffset rOffset emitMatches \<noteq> []
     \<longleftrightarrow> (\<exists>x\<in>set ls. \<exists>y\<in>set rs. adjustedPos lOffset x = adjustedPos rOffset y)"
  using assms
proof (induction ls rs rule: loop_induct [where lOffset = lOffset and rOffset = rOffset
      and mode = emitMatches])
  case (stop ls rs)
  then show ?case by (auto simp: loop_stop loopStops_emitMatches)
next
  case (lt x xs rs)
  from lt.hyps(1) obtain y ys where rs: "rs = y # ys"
    by (cases rs) (auto simp: loopStops_emitMatches)
  have nomatch: "adjustedPos lOffset x \<noteq> adjustedPos rOffset y'" if "y' \<in> set rs" for y'
  proof -
    have "adjustedPos rOffset y \<le> adjustedPos rOffset y'"
      using lt.prems(2) that rs by auto
    with lt.hyps(2) rs show ?thesis by simp
  qed
  have "evalFollowedBy_loop (x # xs) rs lOffset rOffset emitMatches
      = evalFollowedBy_loop xs rs lOffset rOffset emitMatches"
    using lt.hyps by (simp add: loop_lt emitIf_def emitMatches_def emitLeftUnmatched_def)
  moreover have "evalFollowedBy_loop xs rs lOffset rOffset emitMatches \<noteq> []
     \<longleftrightarrow> (\<exists>x\<in>set xs. \<exists>y\<in>set rs. adjustedPos lOffset x = adjustedPos rOffset y)"
    using lt.IH lt.prems by simp
  ultimately show ?case using nomatch by auto
next
  case (eq ls rs)
  from eq.hyps(1) obtain x xs y ys where c: "ls = x # xs" "rs = y # ys"
    by (cases ls; cases rs) (auto simp: loopStops_emitMatches)
  have "evalFollowedBy_loop ls rs lOffset rOffset emitMatches \<noteq> []"
    using eq.hyps by (simp add: loop_eq emitIf_def emitMatches_def)
  moreover have "adjustedPos lOffset x = adjustedPos rOffset y"
    using eq.hyps(2) c by simp
  ultimately show ?case using c by auto
next
  case (gt ls y ys)
  from gt.hyps(1) obtain x xs where ls: "ls = x # xs"
    by (cases ls) (auto simp: loopStops_emitMatches)
  have nomatch: "adjustedPos lOffset x' \<noteq> adjustedPos rOffset y" if "x' \<in> set ls" for x'
  proof -
    have "adjustedPos lOffset x \<le> adjustedPos lOffset x'"
      using gt.prems(1) that ls by auto
    with gt.hyps(2) ls show ?thesis by simp
  qed
  have "evalFollowedBy_loop ls (y # ys) lOffset rOffset emitMatches
      = evalFollowedBy_loop ls ys lOffset rOffset emitMatches"
    using gt.hyps
    by (simp add: loop_gt emitIf_def emitMatches_def emitRightUnmatched_def)
  moreover have "evalFollowedBy_loop ls ys lOffset rOffset emitMatches \<noteq> []
     \<longleftrightarrow> (\<exists>x\<in>set ls. \<exists>y\<in>set ys. adjustedPos lOffset x = adjustedPos rOffset y)"
    using gt.IH gt.prems by simp
  ultimately show ?case using nomatch by auto
qed

lemma wrap64_nonneg: "0 \<le> x \<Longrightarrow> x < 2 ^ 63 \<Longrightarrow> wrap64 x = x"
  by (rule wrap64_id) simp_all

lemma adjustedPos_small:
  assumes "0 \<le> offset" and "offset < 2 ^ 62"
  shows "adjustedPos offset p = uint (position p) + offset"
proof -
  have "uint (position p) < 2 ^ 16" using uint_bounded [of "position p"] by simp
  moreover have "0 \<le> uint (position p)" by simp
  ultimately show ?thesis
    unfolding adjustedPos_def using assms by (intro wrap64_nonneg) simp_all
qed

lemma sorted_adjustedPos:
  assumes "0 \<le> offset" and "offset < 2 ^ 62" and "sorted (map position ps)"
  shows "sorted (map (adjustedPos offset) ps)"
proof -
  have "sorted (map (\<lambda>p. uint (position p) + offset) ps)"
    using assms(3) by (induction ps) (auto simp: word_le_def)
  moreover have "adjustedPos offset = (\<lambda>p. uint (position p) + offset)"
    using adjustedPos_small [OF assms(1,2)] by (intro ext)
  ultimately show ?thesis by simp
qed

lemma evalLeafWithin_exact:
  assumes "sorted_wrt (<) (map lexeme v)" and "\<not> prefixMatch t"
  shows "\<exists>ps. evalLeafWithin v t = Inr \<lparr>positions = ps, width = 0, invert = False\<rparr>
      \<and> position ` set ps = occurrences v (lexeme t)
      \<and> (ps = [] \<or> (\<exists>e\<in>set v. ps = term_positions e))"
proof -
  let ?i = "searchVector v (lexeme t)"
  have s: "sorted (map lexeme v)" and d: "distinct (map lexeme v)"
    using assms(1) by (simp_all add: strict_sorted_iff)
  show ?thesis
  proof (cases "\<exists>x\<in>set v. lexeme x = lexeme t")
    case True
    with searchVector_exact [OF s, of "lexeme t"]
    have i: "?i < length v" "lexeme (v ! ?i) = lexeme t" by simp_all
    have "e = v ! ?i" if "e \<in> set v" "lexeme e = lexeme t" for e
    proof -
      have inj: "inj_on lexeme (set v)" using d by (simp add: distinct_map)
      have mem: "v ! ?i \<in> set v" using i(1) by simp
      from inj_onD [OF inj _ that(1) mem] that(2) i(2) show ?thesis by simp
    qed
    then have "{e \<in> set v. lexeme e = lexeme t} = {v ! ?i}"
      using i by auto
    then have "occurrences v (lexeme t) = position ` set (term_positions (v ! ?i))"
      by (simp add: occurrences_def)
    moreover have "evalLeafWithin v t
        = Inr \<lparr>positions = term_positions (v ! ?i), width = 0, invert = False\<rparr>"
      using i assms(2) by (simp add: evalLeafWithin_def Let_def emptyPositionSet_def)
    ultimately show ?thesis using i(1) by auto
  next
    case False
    then have "occurrences v (lexeme t) = {}"
      by (auto simp: occurrences_def)
    moreover have "evalLeafWithin v t = Inr \<lparr>positions = [], width = 0, invert = False\<rparr>"
      using False searchVector_exact [OF s, of "lexeme t"] assms(2)
      by (auto simp: evalLeafWithin_def Let_def emptyPositionSet_def)
    ultimately show ?thesis by simp
  qed
qed

text \<open>
  Claim C1 says that for every document vector and every query
  \<open>followed_by(leaf(l), leaf(r), d)\<close> with exact-match leaves the evaluator returns true
  if and only if some occurrence position \<open>p\<close> of \<open>l\<close> has \<open>p + d\<close> as an occurrence
  position of \<open>r\<close>. The exact-match leaf hands the entry's position list to the merge as
  it stands, and the merge makes one forward pass: on the vector with \<open>cat\<close> at positions
  5, 1 (in this order) and \<open>dog\<close> at position 2, the query \<open>cat <1> dog\<close> evaluates to
  false, although 1 is an occurrence of \<open>cat\<close> and 1 + 1 = 2 is an occurrence of \<open>dog\<close>.
\<close>

theorem followed_by_unsorted_positions_counterexample:
  "sorted_wrt (<) (map lexeme
     [\<lparr>lexeme = ''cat'',
       term_positions = [\<lparr>position = 5, weight = 0\<rparr>, \<lparr>position = 1, weight = 0\<rparr>]\<rparr>,
      \<lparr>lexeme = ''dog'', term_positions = [\<lparr>position = 2, weight = 0\<rparr>]\<rparr>])
   \<and> \<not> prefixMatch \<lparr>lexeme = ''cat'', term_positions = []\<rparr>
   \<and> \<not> prefixMatch \<lparr>lexeme = ''dog'', term_positions = []\<rparr>
   \<and> EvalTSQuery
     \<lparr>root = Some (TsNode followedby 1 \<lparr>lexeme = [], term_positions = []\<rparr>
        (Some (TsNode invalid 0 \<lparr>lexeme = ''cat'', term_positions = []\<rparr> None None))
        (Some (TsNode invalid 0 \<lparr>lexeme = ''dog'', term_positions = []\<rparr> None None)))\<rparr>
     [\<lparr>lexeme = ''cat'',
       term_positions = [\<lparr>position = 5, weight = 0\<rparr>, \<lparr>position = 1, weight = 0\<rparr>]\<rparr>,
      \<lparr>lexeme = ''dog'', term_positions = [\<lparr>position = 2, weight = 0\<rparr>]\<rparr>]
     = Inr False
   \<and> 1 \<in> occurrences
     [\<lparr>lexeme = ''cat'',
       term_positions = [\<lparr>position = 5, weight = 0\<rparr>, \<lparr>position = 1, weight = 0\<rparr>]\<rparr>,
      \<lparr>lexeme = ''dog'', term_positions = [\<lparr>position = 2, weight = 0\<rparr>]\<rparr>] ''cat''
   \<and> 2 \<in> occurrences
     [\<lparr>lexeme = ''cat'',
       term_positions = [\<lparr>position = 5, weight = 0\<rparr>, \<lparr>position = 1, weight = 0\<rparr>]\<rparr>,
      \<lparr>lexeme = ''dog'', term_positions = [\<lparr>position = 2, weight = 0\<rparr>]\<rparr>] ''dog''
   \<and> uint (1 :: 16 word) + uint (1 :: 16 word) = uint (2 :: 16 word)"
proof -
  let ?v = "[\<lparr>lexeme = ''cat'',
       term_positions = [\<lparr>position = 5, weight = 0\<rparr>, \<lparr>position = 1, weight = 0\<rparr>]\<rparr>,
      \<lparr>lexeme = ''dog'', term_positions = [\<lparr>position = 2, weight = 0\<rparr>]\<rparr>]"
  have e: "EvalTSQuery
     \<lparr>root = Some (TsNode followedby 1 \<lparr>lexeme = [], term_positions = []\<rparr>
        (Some (TsNode invalid 0 \<lparr>lexeme = ''cat'', term_positions = []\<rparr> None None))
        (Some (TsNode invalid 0 \<lparr>lexeme = ''dog'', term_positions = []\<rparr> None None)))\<rparr>
     ?v = Inr False"
    by (simp add: EvalTSQuery_def evalLeafWithin_def searchVector_def Search_def
        Search_loop.simps prefixMatch_def emptyPositionSet_def evalAnd_def andMode_def
        mergeWith_def evalFollowedBy_def followedByOffsets_def evalFollowedBy_loop.simps
        cursorPos_def emitIf_def emitMatches_def emitLeftUnmatched_def
        emitRightUnmatched_def wrap64_def MaxInt64_def Let_def)
  have o: "1 \<in> occurrences ?v ''cat''" "2 \<in> occurrences ?v ''dog''"
    by (auto simp: occurrences_def)
  from e o show ?thesis by (simp add: prefixMatch_def)
qed

text \<open>
  Claim C1, amended. For every document vector (entries ascending and unique by lexeme)
  whose entries each list their positions in ascending order, and every query
  \<open>followed_by(leaf(l), leaf(r), d)\<close> whose leaves are exact-match leaves, the evaluator
  returns true if and only if some occurrence position \<open>p\<close> of \<open>l\<close> has \<open>p + d\<close> as an
  occurrence position of \<open>r\<close>, and it returns no error.
\<close>

theorem followed_by_leaves_exact:
  assumes "sorted_wrt (<) (map lexeme v)"
    and "\<forall>e\<in>set v. sorted (map position (term_positions e))"
    and "\<not> prefixMatch tL" and "\<not> prefixMatch tR"
  shows "EvalTSQuery
           \<lparr>root = Some (TsNode followedby d t
              (Some (TsNode invalid nL tL lL rL)) (Some (TsNode invalid nR tR lR rR)))\<rparr> v
         = Inr (\<exists>p\<in>occurrences v (lexeme tL). \<exists>q\<in>occurrences v (lexeme tR).
                  uint p + uint d = uint q)"
proof -
  from evalLeafWithin_exact [OF assms(1,3)] obtain psL where
    L: "evalLeafWithin v tL = Inr \<lparr>positions = psL, width = 0, invert = False\<rparr>"
      "position ` set psL = occurrences v (lexeme tL)"
      "psL = [] \<or> (\<exists>e\<in>set v. psL = term_positions e)"
    by blast
  from evalLeafWithin_exact [OF assms(1,4)] obtain psR where
    R: "evalLeafWithin v tR = Inr \<lparr>positions = psR, width = 0, invert = False\<rparr>"
      "position ` set psR = occurrences v (lexeme tR)"
      "psR = [] \<or> (\<exists>e\<in>set v. psR = term_positions e)"
    by blast
  have sL: "sorted (map position psL)" and sR: "sorted (map position psR)"
    using L(3) R(3) assms(2) by auto
  have d: "0 \<le> uint d" "uint d < 2 ^ 62"
    using uint_bounded [of d] by simp_all
  have off: "wrap64 (uint d) = uint d"
    using d by (intro wrap64_nonneg) simp_all
  have adjL: "adjustedPos (uint d) x = uint (position x) + uint d" for x
    using d by (rule adjustedPos_small)
  have adjR: "adjustedPos 0 y = uint (position y)" for y
    using adjustedPos_small [of 0 y] by simp
  have "evalWithinFollowedBy v (TsNode followedby d t
            (Some (TsNode invalid nL tL lL rL)) (Some (TsNode invalid nR tR lR rR)))
      = Inr \<lparr>positions = evalFollowedBy_loop psL psR (uint d) 0 emitMatches,
             width = uint d, invert = False\<rparr>"
    using L(1) R(1) off
    by (simp add: evalAnd_def mergeWith_eq' followedByOffsets_def andMode_def Let_def)
  then have "evalNode v (TsNode followedby d t
            (Some (TsNode invalid nL tL lL rL)) (Some (TsNode invalid nR tR lR rR)))
      = Inr (evalFollowedBy_loop psL psR (uint d) 0 emitMatches \<noteq> [])"
    by simp
  also have "evalFollowedBy_loop psL psR (uint d) 0 emitMatches \<noteq> []
      \<longleftrightarrow> (\<exists>x\<in>set psL. \<exists>y\<in>set psR. adjustedPos (uint d) x = adjustedPos 0 y)"
    using sorted_adjustedPos [OF d sL] sorted_adjustedPos [of 0 psR] sR
    by (intro loop_matches_nonempty_iff) simp_all
  also have "\<dots> \<longleftrightarrow> (\<exists>p\<in>position ` set psL. \<exists>q\<in>position ` set psR. uint p + uint d = uint q)"
    by (simp add: adjL adjR)
  finally have "evalNode v (TsNode followedby d t
            (Some (TsNode invalid nL tL lL rL)) (Some (TsNode invalid nR tR lR rR)))
      = Inr (\<exists>p\<in>occurrences v (lexeme tL). \<exists>q\<in>occurrences v (lexeme tR).
               uint p + uint d = uint q)"
    by (simp only: L(2) R(2))
  then show ?thesis by (simp add: EvalTSQuery_def)
qed

theorem followed_by_leaves_exact_witness:
  "sorted_wrt (<) (map lexeme
     [\<lparr>lexeme = ''cat'', term_positions = [\<lparr>position = 1, weight = 0\<rparr>]\<rparr>,
      \<lparr>lexeme = ''dog'', term_positions = [\<lparr>position = 2, weight = 0\<rparr>]\<rparr>])
   \<and> sorted (map position [\<lparr>position = 1, weight = 0\<rparr>])
   \<and> sorted (map position [\<lparr>position = 2, weight = 0\<rparr>])
   \<and> \<not> prefixMatch \<lparr>lexeme = ''cat'', term_positions = []\<rparr>
   \<and> \<not> prefixMatch \<lparr>lexeme = ''dog'', term_positions = []\<rparr>
   \<and> EvalTSQuery
     \<lparr>root = Some (TsNode followedby 1 \<lparr>lexeme = [], term_positions = []\<rparr>
        (Some (TsNode invalid 0 \<lparr>lexeme = ''cat'', term_positions = []\<rparr> None None))
        (Some (TsNode invalid 0 \<lparr>lexeme = ''dog'', term_positions = []\<rparr> None None)))\<rparr>
     [\<lparr>lexeme = ''cat'', term_positions = [\<lparr>position = 1, weight = 0\<rparr>]\<rparr>,
      \<lparr>lexeme = ''dog'', term_positions = [\<lparr>position = 2, weight = 0\<rparr>]\<rparr>]
     = Inr True
   \<and> (\<exists>p\<in>occurrences
          [\<lparr>lexeme = ''cat'', term_positions = [\<lparr>position = 1, weight = 0\<rparr>]\<rparr>,
           \<lparr>lexeme = ''dog'', term_positions = [\<lparr>position = 2, weight = 0\<rparr>]\<rparr>] ''cat''.
        \<exists>q\<in>occurrences
          [\<lparr>lexeme = ''cat'', term_positions = [\<lparr>position = 1, weight = 0\<rparr>]\<rparr>,
           \<lparr>lexeme = ''dog'', term_positions = [\<lparr>position = 2, weight = 0\<rparr>]\<rparr>] ''dog''.
        uint p + uint (1 :: 16 word) = uint q)"
proof -
  let ?v = "[\<lparr>lexeme = ''cat'', term_positions = [\<lparr>position = 1, weight = 0\<rparr>]\<rparr>,
             \<lparr>lexeme = ''dog'', term_positions = [\<lparr>position = 2, weight = 0\<rparr>]\<rparr>]"
  let ?cat = "\<lparr>lexeme = ''cat'', term_positions = []\<rparr>"
  let ?dog = "\<lparr>lexeme = ''dog'', term_positions = []\<rparr>"
  have a: "sorted_wrt (<) (map lexeme ?v)" by simp
  have b: "\<forall>e\<in>set ?v. sorted (map position (term_positions e))" by simp
  have c: "\<not> prefixMatch ?cat" "\<not> prefixMatch ?dog" by (simp_all add: prefixMatch_def)
  have e: "EvalTSQuery \<lparr>root = Some (TsNode followedby 1 \<lparr>lexeme = [], term_positions = []\<rparr>
        (Some (TsNode invalid 0 ?cat None None)) (Some (TsNode invalid 0 ?dog None None)))\<rparr> ?v
      = Inr True"
    by (simp add: EvalTSQuery_def evalLeafWithin_def searchVector_def Search_def Search_loop.simps
        prefixMatch_def emptyPositionSet_def evalAnd_def andMode_def mergeWith_def
        evalFollowedBy_def followedByOffsets_def evalFollowedBy_loop.simps cursorPos_def
        emitIf_def emitMatches_def emitLeftUnmatched_def emitRightUnmatched_def
        wrap64_def MaxInt64_def Let_def)
  from followed_by_leaves_exact [OF a b c, of 1 "\<lparr>lexeme = [], term_positions = []\<rparr>"
      0 None None 0 None None] e
  have "\<exists>p\<in>occurrences ?v ''cat''. \<exists>q\<in>occurrences ?v ''dog''.
      uint p + uint (1 :: 16 word) = uint q"
    by simp
  with a c e show ?thesis by simp
qed

subsection \<open>What the merge stores\<close>

lemma storedPos_wrap64: "storedPos (wrap64 k) p = storedPos k p"
proof -
  have "(word_of_int (wrap64 (uint (position p) + wrap64 k)) :: 16 word)
      = word_of_int (uint (position p) + wrap64 k)"
    by (rule word_of_int_wrap64)
  moreover have "(word_of_int (uint (position p) + wrap64 k) :: 16 word)
      = word_of_int (uint (position p)) + word_of_int (wrap64 k)"
    by simp
  ultimately show ?thesis
    by (simp add: storedPos_def word_of_int_wrap64)
qed

text \<open>
  Claim C10. Every position the merge emits is the offset-adjusted comparison value cut
  to 16 bits, not the input position: it is (position + offset) mod \<open>2 ^ 16\<close> for an
  entry of one of the two sides, with weight zero. When the mode does not emit
  left-unmatched entries (intersection, right-unmatched), every emitted position is
  (right position + right offset) mod \<open>2 ^ 16\<close>; when the mode emits left-unmatched
  entries only, every emitted position is (left position + left offset) mod \<open>2 ^ 16\<close>.
  So under \<open>followed_by\<close> with only the right operand inverted, each entry of the
  result is (position + distance + width of the right operand) mod \<open>2 ^ 16\<close> for a
  position of the left operand; an adjusted value of \<open>2 ^ 16\<close> or more wraps around.
\<close>

theorem merge_emits_adjusted_positions:
  "(\<forall>e\<in>set (evalFollowedBy_loop ls rs lOffset rOffset mode).
      weight e = 0
    \<and> ((\<exists>x\<in>set ls. uint (position e) = (uint (position x) + lOffset) mod 2 ^ 16)
       \<or> (\<exists>y\<in>set rs. uint (position e) = (uint (position y) + rOffset) mod 2 ^ 16))
    \<and> (mode AND emitLeftUnmatched = 0 \<longrightarrow>
         (\<exists>y\<in>set rs. uint (position e) = (uint (position y) + rOffset) mod 2 ^ 16))
    \<and> (mode AND emitMatches = 0 \<and> mode AND emitRightUnmatched = 0 \<longrightarrow>
         (\<exists>x\<in>set ls. uint (position e) = (uint (position x) + lOffset) mod 2 ^ 16)))
   \<and> (evalWithinFollowedBy v ln = Inr lP \<and> evalWithinFollowedBy v rn = Inr rP
        \<and> \<not> invert lP \<and> invert rP \<longrightarrow>
      (\<exists>ps. evalWithinFollowedBy v (TsNode followedby n t (Some ln) (Some rn)) = Inr ps
         \<and> (\<forall>e\<in>set (positions ps). \<exists>x\<in>set (positions lP).
               uint (position e) = (uint (position x) + uint n + width rP) mod 2 ^ 16)))"
proof (intro conjI ballI impI)
  fix e
  assume e: "e \<in> set (evalFollowedBy_loop ls rs lOffset rOffset mode)"
  from loop_origin_any [of ls rs lOffset rOffset mode] e
  have any: "e \<in> (\<lambda>p. \<lparr>position = storedPos lOffset p, weight = 0\<rparr>) ` set ls
      \<union> (\<lambda>p. \<lparr>position = storedPos rOffset p, weight = 0\<rparr>) ` set rs"
    by blast
  then show "weight e = 0" by auto
  from any show "(\<exists>x\<in>set ls. uint (position e) = (uint (position x) + lOffset) mod 2 ^ 16)
       \<or> (\<exists>y\<in>set rs. uint (position e) = (uint (position y) + rOffset) mod 2 ^ 16)"
    by (auto simp: uint_storedPos)
  show "\<exists>y\<in>set rs. uint (position e) = (uint (position y) + rOffset) mod 2 ^ 16"
    if "mode AND emitLeftUnmatched = 0"
  proof -
    from loop_origin_right [OF that, of ls rs lOffset rOffset] e
    obtain y where "y \<in> set rs" "position e = storedPos rOffset y" by auto
    then show ?thesis by (auto simp: uint_storedPos)
  qed
  show "\<exists>x\<in>set ls. uint (position e) = (uint (position x) + lOffset) mod 2 ^ 16"
    if "mode AND emitMatches = 0 \<and> mode AND emitRightUnmatched = 0"
  proof -
    from loop_origin_left [of mode ls rs lOffset rOffset] that e
    obtain x where "x \<in> set ls" "position e = storedPos lOffset x" by auto
    then show ?thesis by (auto simp: uint_storedPos)
  qed
next
  assume a: "evalWithinFollowedBy v ln = Inr lP \<and> evalWithinFollowedBy v rn = Inr rP
      \<and> \<not> invert lP \<and> invert rP"
  let ?out = "evalFollowedBy_loop (positions lP) (positions rP)
      (wrap64 (uint n + width rP)) 0 emitLeftUnmatched"
  have m: "emitLeftUnmatched AND emitMatches = 0"
    "emitLeftUnmatched AND emitRightUnmatched = 0"
    by (simp_all add: emitMatches_def emitLeftUnmatched_def emitRightUnmatched_def)
  have r: "evalWithinFollowedBy v (TsNode followedby n t (Some ln) (Some rn))
      = Inr \<lparr>positions = ?out, width = wrap64 (wrap64 (uint n + width rP) + width lP),
             invert = False\<rparr>"
    using a by (simp add: evalAnd_def mergeWith_eq' followedByOffsets_def andMode_def Let_def)
  have "\<exists>x\<in>set (positions lP).
      uint (position e) = (uint (position x) + uint n + width rP) mod 2 ^ 16"
    if "e \<in> set ?out" for e
  proof -
    from loop_origin_left [OF m, of "positions lP" "positions rP"
        "wrap64 (uint n + width rP)" 0] that
    obtain x where x: "x \<in> set (positions lP)"
      "position e = storedPos (wrap64 (uint n + width rP)) x"
      by auto
    from x(2) have "uint (position e) = (uint (position x) + (uint n + width rP)) mod 2 ^ 16"
      by (simp only: storedPos_wrap64 uint_storedPos)
    with x(1) show ?thesis by (auto simp: add.assoc)
  qed
  with r show "\<exists>ps. evalWithinFollowedBy v (TsNode followedby n t (Some ln) (Some rn)) = Inr ps
         \<and> (\<forall>e\<in>set (positions ps). \<exists>x\<in>set (positions lP).
               uint (position e) = (uint (position x) + uint n + width rP) mod 2 ^ 16)"
    by simp
qed

theorem merge_emits_adjusted_positions_witness:
  "evalFollowedBy_loop [\<lparr>position = 65535, weight = 8\<rparr>] [] 1 0 emitLeftUnmatched
     = [\<lparr>position = 0, weight = 0\<rparr>]
   \<and> uint (0 :: 16 word) = (uint (65535 :: 16 word) + 1) mod 2 ^ 16
   \<and> emitLeftUnmatched AND emitMatches = 0 \<and> emitLeftUnmatched AND emitRightUnmatched = 0
   \<and> evalWithinFollowedBy
        [\<lparr>lexeme = ''cat'', term_positions = [\<lparr>position = 65535, weight = 8\<rparr>]\<rparr>]
        (TsNode invalid 0 \<lparr>lexeme = ''cat'', term_positions = []\<rparr> None None)
      = Inr \<lparr>positions = [\<lparr>position = 65535, weight = 8\<rparr>], width = 0, invert = False\<rparr>
   \<and> evalWithinFollowedBy
        [\<lparr>lexeme = ''cat'', term_positions = [\<lparr>position = 65535, weight = 8\<rparr>]\<rparr>]
        (TsNode not_op 0 \<lparr>lexeme = [], term_positions = []\<rparr>
           (Some (TsNode invalid 0 \<lparr>lexeme = ''dog'', term_positions = []\<rparr> None None)) None)
      = Inr \<lparr>positions = [], width = 0, invert = True\<rparr>
   \<and> evalWithinFollowedBy
        [\<lparr>lexeme = ''cat'', term_positions = [\<lparr>position = 65535, weight = 8\<rparr>]\<rparr>]
        (TsNode followedby 1 \<lparr>lexeme = [], term_positions = []\<rparr>
           (Some (TsNode invalid 0 \<lparr>lexeme = ''cat'', term_positions = []\<rparr> None None))
           (Some (TsNode not_op 0 \<lparr>lexeme = [], term_positions = []\<rparr>
              (Some (TsNode invalid 0 \<lparr>lexeme = ''dog'', term_positions = []\<rparr> None None))
              None)))
      = Inr \<lparr>positions = [\<lparr>position = 0, weight = 0\<rparr>], width = 1, invert = False\<rparr>"
proof -
  let ?v = "[\<lparr>lexeme = ''cat'', term_positions = [\<lparr>position = 65535, weight = 8\<rparr>]\<rparr>]"
  let ?t = "\<lparr>lexeme = [], term_positions = []\<rparr>"
  let ?ln = "TsNode invalid 0 \<lparr>lexeme = ''cat'', term_positions = []\<rparr> None None"
  let ?rn = "TsNode not_op 0 ?t
      (Some (TsNode invalid 0 \<lparr>lexeme = ''dog'', term_positions = []\<rparr> None None)) None"
  have l: "evalWithinFollowedBy ?v ?ln
      = Inr \<lparr>positions = [\<lparr>position = 65535, weight = 8\<rparr>], width = 0, invert = False\<rparr>"
    by (simp add: evalLeafWithin_def searchVector_def Search_def Search_loop.simps
        prefixMatch_def emptyPositionSet_def)
  have r: "evalWithinFollowedBy ?v ?rn = Inr \<lparr>positions = [], width = 0, invert = True\<rparr>"
    by (simp add: evalLeafWithin_def searchVector_def Search_def Search_loop.simps
        prefixMatch_def emptyPositionSet_def)
  have o: "evalFollowedBy_loop [\<lparr>position = 65535, weight = 8\<rparr>] [] 1 0 emitLeftUnmatched
      = [\<lparr>position = 0, weight = 0\<rparr>]"
    by (simp add: evalFollowedBy_loop.simps cursorPos_def emitIf_def emitMatches_def
        emitLeftUnmatched_def emitRightUnmatched_def wrap64_def MaxInt64_def)
  have f: "evalWithinFollowedBy ?v (TsNode followedby 1 ?t (Some ?ln) (Some ?rn))
      = Inr \<lparr>positions = [\<lparr>position = 0, weight = 0\<rparr>], width = 1, invert = False\<rparr>"
    using l r o
    by (simp add: evalAnd_def andMode_def mergeWith_def evalFollowedBy_def
        followedByOffsets_def emptyPositionSet_def wrap64_def Let_def)
  from merge_emits_adjusted_positions
    [of "[\<lparr>position = 65535, weight = 8\<rparr>]" "[]" 1 0 emitLeftUnmatched ?v ?ln
        "\<lparr>positions = [\<lparr>position = 65535, weight = 8\<rparr>], width = 0, invert = False\<rparr>"
        ?rn "\<lparr>positions = [], width = 0, invert = True\<rparr>" 1 ?t] l r o f
  show ?thesis
    by (simp add: emitMatches_def emitLeftUnmatched_def emitRightUnmatched_def)
qed

subsection \<open>The size of position sets\<close>

lemma loop_left_rest:
  assumes "mode AND emitLeftUnmatched > 0"
    and "\<forall>x\<in>set ls. adjustedPos lOffset x < MaxInt64"
  shows "evalFollowedBy_loop ls [] lOffset rOffset mode
     = map (\<lambda>p. \<lparr>position = storedPos lOffset p, weight = 0\<rparr>) ls"
  using assms(2)
proof (induction ls)
  case Nil
  show ?case by (simp add: loop_stop loopStops_def)
next
  case (Cons x xs)
  have ns: "\<not> loopStops (x # xs) [] mode"
    using assms(1) by (simp add: loopStops_def)
  have "cursorPos (x # xs) lOffset < cursorPos [] rOffset"
    using Cons.prems by simp
  from loop_lt [OF ns this] Cons assms(1) show ?case
    by (simp add: emitIf_storedPos)
qed

lemma storedPos_0 [simp]: "storedPos 0 p = position p"
  by (simp add: storedPos_def)

lemma adjustedPos_0: "adjustedPos 0 p = uint (position p)"
  using adjustedPos_small [of 0 p] by simp

lemma adjustedPos_0_less: "adjustedPos 0 p < MaxInt64"
  using uint_bounded [of "position p"] by (simp add: adjustedPos_0 MaxInt64_def)

lemma positionRange_Cons:
  "a < b \<Longrightarrow> positionRange a b = \<lparr>position = of_nat a, weight = 0\<rparr> # positionRange (Suc a) b"
  by (simp add: positionRange_def upt_conv_Cons)

lemma positionRange_unweighted:
  "map (\<lambda>p. \<lparr>position = position p, weight = 0\<rparr>) (positionRange a b) = positionRange a b"
  by (simp add: positionRange_def)

lemma length_positionRange [simp]: "length (positionRange a b) = b - a"
  by (simp add: positionRange_def)

lemma positionsSorted_positionRange:
  assumes "b \<le> 2 ^ 16"
  shows "positionsSorted (positionRange a b)"
proof -
  have "sorted_wrt (\<lambda>i j. (of_nat i :: 16 word) < of_nat j) [a..<b]"
  proof (rule sorted_wrt_mono_rel [of _ "(<)"])
    fix i j assume "i \<in> set [a..<b]" "j \<in> set [a..<b]" "i < j"
    with assms have "i < 2 ^ 16" "j < 2 ^ 16" by auto
    then have "take_bit LENGTH(16) i = i" "take_bit LENGTH(16) j = j"
      by (simp_all add: take_bit_nat_eq_self)
    with \<open>i < j\<close> show "(of_nat i :: 16 word) < of_nat j"
      by (simp only: of_nat_word_less_iff)
  qed (simp add: sorted_wrt_upt)
  then show ?thesis
    by (simp add: positionsSorted_def positionRange_def sorted_wrt_map comp_def)
qed

lemma length_evalLeafWithin:
  assumes "\<forall>e\<in>set v. length (term_positions e) \<le> maxTSVectorPositions"
  shows "\<exists>ps. evalLeafWithin v t = Inr ps \<and> length (positions ps) \<le> maxTSVectorPositions"
proof -
  have "length (term_positions (v ! i)) \<le> maxTSVectorPositions" if "i < length v" for i
    using assms that by simp
  then show ?thesis
    by (auto simp: evalLeafWithin_def Let_def emptyPositionSet_def length_sortAndUniq not_le)
qed

text \<open>
  Claim C5 says that every position set produced during evaluation has at most
  \<open>MAX_POSITIONS\<close> (256) entries, for the result of every leaf lookup and of every
  merge. The merge does not truncate: on a vector whose two entries have 256 positions
  and one position, all distinct and ascending, the position set of \<open>a | b\<close> (as it is
  evaluated beneath a proximity operator) has 257 entries.
\<close>

theorem merge_exceeds_cap_counterexample:
  "positionsSorted (positionRange 1 257) \<and> positionsSorted (positionRange 0 1)
   \<and> length (positionRange 1 257) = maxTSVectorPositions
   \<and> sorted_wrt (<) (map lexeme
        [\<lparr>lexeme = ''a'', term_positions = positionRange 1 257\<rparr>,
         \<lparr>lexeme = ''b'', term_positions = positionRange 0 1\<rparr>])
   \<and> evalWithinFollowedBy
        [\<lparr>lexeme = ''a'', term_positions = positionRange 1 257\<rparr>,
         \<lparr>lexeme = ''b'', term_positions = positionRange 0 1\<rparr>]
        (TsNode or_op 0 \<lparr>lexeme = [], term_positions = []\<rparr>
           (Some (TsNode invalid 0 \<lparr>lexeme = ''a'', term_positions = []\<rparr> None None))
           (Some (TsNode invalid 0 \<lparr>lexeme = ''b'', term_positions = []\<rparr> None None)))
      = Inr \<lparr>positions = positionRange 0 257, width = 0, invert = False\<rparr>
   \<and> length (positionRange 0 257) = 257
   \<and> maxTSVectorPositions < 257"
proof -
  let ?v = "[\<lparr>lexeme = ''a'', term_positions = positionRange 1 257\<rparr>,
             \<lparr>lexeme = ''b'', term_positions = positionRange 0 1\<rparr>]"
  let ?m = "emitMatches OR emitLeftUnmatched OR emitRightUnmatched"
  have l: "evalWithinFollowedBy ?v
      (TsNode invalid 0 \<lparr>lexeme = ''a'', term_positions = []\<rparr> None None)
      = Inr \<lparr>positions = positionRange 1 257, width = 0, invert = False\<rparr>"
    by (simp add: evalLeafWithin_def searchVector_def Search_def Search_loop.simps
        prefixMatch_def emptyPositionSet_def)
  have r: "evalWithinFollowedBy ?v
      (TsNode invalid 0 \<lparr>lexeme = ''b'', term_positions = []\<rparr> None None)
      = Inr \<lparr>positions = positionRange 0 1, width = 0, invert = False\<rparr>"
    by (simp add: evalLeafWithin_def searchVector_def Search_def Search_loop.simps
        prefixMatch_def emptyPositionSet_def)
  have L: "?m AND emitLeftUnmatched > 0" and R: "?m AND emitRightUnmatched > 0"
    by (simp_all add: emitMatches_def emitLeftUnmatched_def emitRightUnmatched_def)
  have p1: "positionRange 1 257 = \<lparr>position = 1, weight = 0\<rparr> # positionRange 2 257"
    using positionRange_Cons [of 1 257] by (simp add: numeral_2_eq_2)
  have p0: "positionRange 0 1 = [\<lparr>position = 0, weight = 0\<rparr>]"
    by (simp add: positionRange_def)
  have p: "positionRange 0 257 = \<lparr>position = 0, weight = 0\<rparr> # positionRange 1 257"
    using positionRange_Cons [of 0 257] by simp
  have ns: "\<not> loopStops (positionRange 1 257) (positionRange 0 1) ?m"
    unfolding loopStops_def p1 p0 by simp
  have gt: "cursorPos (positionRange 0 1) 0 < cursorPos (positionRange 1 257) 0"
    unfolding p1 p0 by (simp add: adjustedPos_0)
  have rest: "evalFollowedBy_loop (positionRange 1 257) [] 0 0 ?m = positionRange 1 257"
    using loop_left_rest [OF L, of "positionRange 1 257" 0 0]
    by (simp add: adjustedPos_0_less positionRange_unweighted)
  have "evalFollowedBy_loop (positionRange 1 257) (positionRange 0 1) 0 0 ?m
      = positionRange 0 257"
    using loop_gt [OF ns gt] R rest unfolding p0 p
    by (simp add: emitIf_def adjustedPos_0)
  moreover have "wrap64 0 = 0" by (simp add: wrap64_def)
  ultimately have "evalWithinFollowedBy ?v
      (TsNode or_op 0 \<lparr>lexeme = [], term_positions = []\<rparr>
         (Some (TsNode invalid 0 \<lparr>lexeme = ''a'', term_positions = []\<rparr> None None))
         (Some (TsNode invalid 0 \<lparr>lexeme = ''b'', term_positions = []\<rparr> None None)))
      = Inr \<lparr>positions = positionRange 0 257, width = 0, invert = False\<rparr>"
    using l r
    by (simp add: evalOr_def orMode_def mergeWith_eq' alignOffsets_def Let_def)
  then show ?thesis
    by (simp add: positionsSorted_positionRange maxTSVectorPositions_def)
qed

text \<open>
  Claim C5, amended. The normalizer returns at most \<open>MAX_POSITIONS\<close> (256) entries: its
  positions are the first 256 of the sorted, deduplicated positions of its input, a
  longer list being cut silently, never an error. So the result of a leaf lookup has at
  most 256 entries on every vector whose entries have at most 256 positions each. The
  result of a merge is not truncated: it has at most as many entries as its two operands
  together.
\<close>

theorem position_set_size_bounds:
  "length (sortAndUniqTSPositions pos) \<le> maxTSVectorPositions
   \<and> map position (sortAndUniqTSPositions pos)
       = take maxTSVectorPositions (remdups_adj (sort (map position pos)))
   \<and> ((\<forall>e\<in>set v. length (term_positions e) \<le> maxTSVectorPositions) \<longrightarrow>
        (\<exists>ps. evalWithinFollowedBy v (TsNode invalid n t l r) = Inr ps
           \<and> length (positions ps) \<le> maxTSVectorPositions))
   \<and> (evalWithinFollowedBy v ln = Inr lP \<and> evalWithinFollowedBy v rn = Inr rP
        \<and> (opr = and_op \<or> opr = or_op \<or> opr = followedby) \<longrightarrow>
        (\<exists>ps. evalWithinFollowedBy v (TsNode opr n t (Some ln) (Some rn)) = Inr ps
           \<and> length (positions ps) \<le> length (positions lP) + length (positions rP)))"
proof (intro conjI impI)
  show "length (sortAndUniqTSPositions pos) \<le> maxTSVectorPositions"
    by (rule length_sortAndUniq)
  show "map position (sortAndUniqTSPositions pos)
       = take maxTSVectorPositions (remdups_adj (sort (map position pos)))"
    by (rule sortAndUniq_positions)
  show "\<exists>ps. evalWithinFollowedBy v (TsNode invalid n t l r) = Inr ps
           \<and> length (positions ps) \<le> maxTSVectorPositions"
    if "\<forall>e\<in>set v. length (term_positions e) \<le> maxTSVectorPositions"
    using length_evalLeafWithin [OF that, of t] by simp
  show "\<exists>ps. evalWithinFollowedBy v (TsNode opr n t (Some ln) (Some rn)) = Inr ps
           \<and> length (positions ps) \<le> length (positions lP) + length (positions rP)"
    if "evalWithinFollowedBy v ln = Inr lP \<and> evalWithinFollowedBy v rn = Inr rP
        \<and> (opr = and_op \<or> opr = or_op \<or> opr = followedby)"
    using that
    by (auto simp: evalAnd_def evalOr_def mergeWith_eq' length_evalFollowedBy_loop)
qed

theorem position_set_size_bounds_witness:
  "length (sortAndUniqTSPositions
      [\<lparr>position = 5, weight = 0\<rparr>, \<lparr>position = 3, weight = 0\<rparr>, \<lparr>position = 5, weight = 0\<rparr>])
     \<le> maxTSVectorPositions
   \<and> length [\<lparr>position = 1, weight = 0\<rparr>] \<le> maxTSVectorPositions
   \<and> length [\<lparr>position = 3, weight = 0\<rparr>] \<le> maxTSVectorPositions
   \<and> evalWithinFollowedBy
     [\<lparr>lexeme = ''cat'', term_positions = [\<lparr>position = 1, weight = 0\<rparr>]\<rparr>,
      \<lparr>lexeme = ''dog'', term_positions = [\<lparr>position = 3, weight = 0\<rparr>]\<rparr>]
     (TsNode invalid 0 \<lparr>lexeme = ''cat'', term_positions = []\<rparr> None None)
     = Inr \<lparr>positions = [\<lparr>position = 1, weight = 0\<rparr>], width = 0, invert = False\<rparr>
   \<and> evalWithinFollowedBy
     [\<lparr>lexeme = ''cat'', term_positions = [\<lparr>position = 1, weight = 0\<rparr>]\<rparr>,
      \<lparr>lexeme = ''dog'', term_positions = [\<lparr>position = 3, weight = 0\<rparr>]\<rparr>]
     (TsNode invalid 0 \<lparr>lexeme = ''dog'', term_positions = []\<rparr> None None)
     = Inr \<lparr>positions = [\<lparr>position = 3, weight = 0\<rparr>], width = 0, invert = False\<rparr>
   \<and> evalWithinFollowedBy
     [\<lparr>lexeme = ''cat'', term_positions = [\<lparr>position = 1, weight = 0\<rparr>]\<rparr>,
      \<lparr>lexeme = ''dog'', term_positions = [\<lparr>position = 3, weight = 0\<rparr>]\<rparr>]
     (TsNode or_op 0 \<lparr>lexeme = [], term_positions = []\<rparr>
        (Some (TsNode invalid 0 \<lparr>lexeme = ''cat'', term_positions = []\<rparr> None None))
        (Some (TsNode invalid 0 \<lparr>lexeme = ''dog'', term_positions = []\<rparr> None None)))
     = Inr \<lparr>positions = [\<lparr>position = 1, weight = 0\<rparr>, \<lparr>position = 3, weight = 0\<rparr>],
            width = 0, invert = False\<rparr>"
proof -
  let ?v = "[\<lparr>lexeme = ''cat'', term_positions = [\<lparr>position = 1, weight = 0\<rparr>]\<rparr>,
             \<lparr>lexeme = ''dog'', term_positions = [\<lparr>position = 3, weight = 0\<rparr>]\<rparr>]"
  let ?t = "\<lparr>lexeme = [], term_positions = []\<rparr>"
  let ?ln = "TsNode invalid 0 \<lparr>lexeme = ''cat'', term_positions = []\<rparr> None None"
  let ?rn = "TsNode invalid 0 \<lparr>lexeme = ''dog'', term_positions = []\<rparr> None None"
  have l: "evalWithinFollowedBy ?v ?ln
      = Inr \<lparr>positions = [\<lparr>position = 1, weight = 0\<rparr>], width = 0, invert = False\<rparr>"
    by (simp add: evalLeafWithin_def searchVector_def Search_def Search_loop.simps
        prefixMatch_def emptyPositionSet_def)
  have r: "evalWithinFollowedBy ?v ?rn
      = Inr \<lparr>positions = [\<lparr>position = 3, weight = 0\<rparr>], width = 0, invert = False\<rparr>"
    by (simp add: evalLeafWithin_def searchVector_def Search_def Search_loop.simps
        prefixMatch_def emptyPositionSet_def)
  have o: "evalWithinFollowedBy ?v (TsNode or_op 0 ?t (Some ?ln) (Some ?rn))
      = Inr \<lparr>positions = [\<lparr>position = 1, weight = 0\<rparr>, \<lparr>position = 3, weight = 0\<rparr>],
             width = 0, invert = False\<rparr>"
    using l r
    by (simp add: evalOr_def orMode_def mergeWith_def evalFollowedBy_def alignOffsets_def
        emptyPositionSet_def evalFollowedBy_loop.simps cursorPos_def emitIf_def
        emitMatches_def emitLeftUnmatched_def emitRightUnmatched_def wrap64_def
        MaxInt64_def Let_def)
  from position_set_size_bounds
    [of "[\<lparr>position = 5, weight = 0\<rparr>, \<lparr>position = 3, weight = 0\<rparr>,
          \<lparr>position = 5, weight = 0\<rparr>]"
        ?v 0 "\<lparr>lexeme = ''cat'', term_positions = []\<rparr>" None None ?ln
        "\<lparr>positions = [\<lparr>position = 1, weight = 0\<rparr>], width = 0, invert = False\<rparr>"
        ?rn "\<lparr>positions = [\<lparr>position = 3, weight = 0\<rparr>], width = 0, invert = False\<rparr>"
        or_op] l r o
  show ?thesis by (simp add: maxTSVectorPositions_def)
qed

subsection \<open>Order of the positions in a position set\<close>

text \<open>While no adjusted position reaches \<open>2 ^ 16\<close>, the merge of two lists in normal
  form is in normal form, and so is every position set the evaluator returns: every
  vector position is at most \<open>M\<close> and \<open>M\<close> plus the width of the query stays below
  \<open>2 ^ 16\<close>.\<close>

lemma positionsSorted_uint:
  "positionsSorted ps \<longleftrightarrow> sorted_wrt (<) (map (\<lambda>p. uint (position p)) ps)"
  by (simp add: positionsSorted_def sorted_wrt_map word_less_def)

lemma uint_storedPos_small:
  assumes "0 \<le> offset" and "uint (position p) + offset < 2 ^ 16"
  shows "uint (storedPos offset p) = uint (position p) + offset"
proof -
  have "0 \<le> uint (position p) + offset" using assms(1) by simp
  with assms(2) show ?thesis
    by (simp add: uint_storedPos mod_pos_pos_trivial)
qed

lemma adjustedPos_small16:
  assumes "0 \<le> offset" and "uint (position p) + offset < 2 ^ 16"
  shows "adjustedPos offset p = uint (position p) + offset"
proof -
  have a: "0 \<le> uint (position p)" by simp
  have b: "uint (position p) + offset < 65536" using assms(2) by simp
  from a b have "offset < 65536" by linarith
  then have "offset < 2 ^ 62" by simp
  with assms(1) show ?thesis by (rule adjustedPos_small)
qed

lemma loop_sorted:
  assumes lo: "0 \<le> lOffset" and ro: "0 \<le> rOffset"
  shows "positionsSorted ls \<Longrightarrow> positionsSorted rs \<Longrightarrow>
    \<forall>x\<in>set ls. uint (position x) + lOffset < 2 ^ 16 \<Longrightarrow>
    \<forall>y\<in>set rs. uint (position y) + rOffset < 2 ^ 16 \<Longrightarrow>
    positionsSorted (evalFollowedBy_loop ls rs lOffset rOffset mode)"
proof (induction ls rs rule: loop_induct [where lOffset = lOffset and rOffset = rOffset
      and mode = mode])
  case (stop ls rs)
  then show ?case by (simp add: loop_stop positionsSorted_def)
next
  case (lt x xs rs)
  let ?out = "evalFollowedBy_loop xs rs lOffset rOffset mode"
  have sx: "positionsSorted xs" and bx: "\<forall>x\<in>set xs. uint (position x) + lOffset < 2 ^ 16"
    using lt.prems by (simp_all add: positionsSorted_def)
  have ih: "positionsSorted ?out" using lt.IH sx lt.prems(2) bx lt.prems(4) by simp
  have ax: "adjustedPos lOffset x = uint (position x) + lOffset"
    using lo lt.prems(3) by (simp add: adjustedPos_small16)
  have above: "uint (position x) + lOffset < uint (position e)" if "e \<in> set ?out" for e
  proof -
    from loop_origin_any [of xs rs lOffset rOffset mode] that
    consider (l) x' where "x' \<in> set xs" "position e = storedPos lOffset x'"
      | (r) y where "y \<in> set rs" "position e = storedPos rOffset y"
      by auto
    then show ?thesis
    proof cases
      case l
      have "uint (position x) < uint (position x')"
        using lt.prems(1) l(1) by (auto simp: positionsSorted_uint)
      moreover have "uint (position e) = uint (position x') + lOffset"
        using l lo bx by (simp add: uint_storedPos_small)
      ultimately show ?thesis by simp
    next
      case r
      then obtain y0 ys where rs: "rs = y0 # ys" by (cases rs) auto
      have "uint (position y0) \<le> uint (position y)"
        using lt.prems(2) r(1) rs by (auto simp: positionsSorted_uint)
      moreover have "adjustedPos rOffset y0 = uint (position y0) + rOffset"
        using ro lt.prems(4) rs by (simp add: adjustedPos_small16)
      moreover have "uint (position e) = uint (position y) + rOffset"
        using r ro lt.prems(4) by (simp add: uint_storedPos_small)
      ultimately show ?thesis using lt.hyps(2) rs ax by simp
    qed
  qed
  have st: "uint (storedPos lOffset x) = uint (position x) + lOffset"
    using lo lt.prems(3) by (simp add: uint_storedPos_small)
  show ?case
    using lt.hyps ih above st
    by (auto simp: loop_lt emitIf_storedPos positionsSorted_uint)
next
  case (eq ls rs)
  have small: "cursorPos zs off < MaxInt64"
    if "zs \<noteq> []" "0 \<le> off" "\<forall>z\<in>set zs. uint (position z) + off < 2 ^ 16" for zs off
  proof -
    from that(1) obtain z zs' where zs: "zs = z # zs'" by (cases zs) auto
    with that have "adjustedPos off z = uint (position z) + off"
      by (simp add: adjustedPos_small16)
    with that(3) zs show ?thesis by (simp add: MaxInt64_def)
  qed
  have "ls \<noteq> [] \<and> rs \<noteq> []"
  proof (rule ccontr)
    assume "\<not> (ls \<noteq> [] \<and> rs \<noteq> [])"
    with eq.hyps(1) consider "ls = []" "rs \<noteq> []" | "rs = []" "ls \<noteq> []"
      by (auto simp: loopStops_def)
    then show False
    proof cases
      case 1
      with small [of rs rOffset] ro eq.prems(4) eq.hyps(2) show False by simp
    next
      case 2
      with small [of ls lOffset] lo eq.prems(3) eq.hyps(2) show False by simp
    qed
  qed
  then obtain x xs y ys where c: "ls = x # xs" "rs = y # ys"
    by (cases ls; cases rs) auto
  let ?out = "evalFollowedBy_loop xs ys lOffset rOffset mode"
  have sx: "positionsSorted xs" "positionsSorted ys"
    and bx: "\<forall>x\<in>set xs. uint (position x) + lOffset < 2 ^ 16"
      "\<forall>y\<in>set ys. uint (position y) + rOffset < 2 ^ 16"
    using eq.prems c by (simp_all add: positionsSorted_def)
  have ih: "positionsSorted ?out" using eq.IH sx bx c by simp
  have ax: "adjustedPos lOffset x = uint (position x) + lOffset"
    using lo eq.prems(3) c by (simp add: adjustedPos_small16)
  have ay: "adjustedPos rOffset y = uint (position y) + rOffset"
    using ro eq.prems(4) c by (simp add: adjustedPos_small16)
  have xy: "uint (position x) + lOffset = uint (position y) + rOffset"
    using eq.hyps(2) c ax ay by simp
  have above: "uint (position y) + rOffset < uint (position e)" if "e \<in> set ?out" for e
  proof -
    from loop_origin_any [of xs ys lOffset rOffset mode] that
    consider (l) x' where "x' \<in> set xs" "position e = storedPos lOffset x'"
      | (r) y' where "y' \<in> set ys" "position e = storedPos rOffset y'"
      by auto
    then show ?thesis
    proof cases
      case l
      have "uint (position x) < uint (position x')"
        using eq.prems(1) l(1) c by (auto simp: positionsSorted_uint)
      moreover have "uint (position e) = uint (position x') + lOffset"
        using l lo bx by (simp add: uint_storedPos_small)
      ultimately show ?thesis using xy by simp
    next
      case r
      have "uint (position y) < uint (position y')"
        using eq.prems(2) r(1) c by (auto simp: positionsSorted_uint)
      moreover have "uint (position e) = uint (position y') + rOffset"
        using r ro bx by (simp add: uint_storedPos_small)
      ultimately show ?thesis by simp
    qed
  qed
  have st: "uint (storedPos rOffset y) = uint (position y) + rOffset"
    using ro eq.prems(4) c by (simp add: uint_storedPos_small)
  show ?case
    using eq.hyps ih above st c
    by (auto simp: loop_eq emitIf_storedPos positionsSorted_uint)
next
  case (gt ls y ys)
  let ?out = "evalFollowedBy_loop ls ys lOffset rOffset mode"
  have sy: "positionsSorted ys" and by': "\<forall>y\<in>set ys. uint (position y) + rOffset < 2 ^ 16"
    using gt.prems by (simp_all add: positionsSorted_def)
  have ih: "positionsSorted ?out" using gt.IH sy gt.prems(1) by' gt.prems(3) by simp
  have ay: "adjustedPos rOffset y = uint (position y) + rOffset"
    using ro gt.prems(4) by (simp add: adjustedPos_small16)
  have above: "uint (position y) + rOffset < uint (position e)" if "e \<in> set ?out" for e
  proof -
    from loop_origin_any [of ls ys lOffset rOffset mode] that
    consider (l) x where "x \<in> set ls" "position e = storedPos lOffset x"
      | (r) y' where "y' \<in> set ys" "position e = storedPos rOffset y'"
      by auto
    then show ?thesis
    proof cases
      case r
      have "uint (position y) < uint (position y')"
        using gt.prems(2) r(1) by (auto simp: positionsSorted_uint)
      moreover have "uint (position e) = uint (position y') + rOffset"
        using r ro by' by (simp add: uint_storedPos_small)
      ultimately show ?thesis by simp
    next
      case l
      then obtain x0 xs where ls: "ls = x0 # xs" by (cases ls) auto
      have "uint (position x0) \<le> uint (position x)"
        using gt.prems(1) l(1) ls by (auto simp: positionsSorted_uint)
      moreover have "adjustedPos lOffset x0 = uint (position x0) + lOffset"
        using lo gt.prems(3) ls by (simp add: adjustedPos_small16)
      moreover have "uint (position e) = uint (position x) + lOffset"
        using l lo gt.prems(3) by (simp add: uint_storedPos_small)
      ultimately show ?thesis using gt.hyps(2) ls ay by simp
    qed
  qed
  have st: "uint (storedPos rOffset y) = uint (position y) + rOffset"
    using ro gt.prems(4) by (simp add: uint_storedPos_small)
  show ?case
    using gt.hyps ih above st
    by (auto simp: loop_gt emitIf_storedPos positionsSorted_uint)
qed


lemma queryWidth_nonneg: "0 \<le> queryWidth q"
proof (induction q)
  case (TsNode opr n t l r)
  have "0 \<le> (case l of None \<Rightarrow> 0 | Some ln \<Rightarrow> queryWidth ln)"
    using TsNode.IH(1) by (cases l) auto
  moreover have "0 \<le> (case r of None \<Rightarrow> 0 | Some rn \<Rightarrow> queryWidth rn)"
    using TsNode.IH(2) by (cases r) auto
  ultimately show ?case
    by (cases opr) (simp_all add: Let_def)
qed

lemma merge_invariant:
  assumes sl: "positionsSorted (positions lP)"
    and bl: "\<forall>p\<in>set (positions lP). uint (position p) \<le> M + width lP"
    and sr: "positionsSorted (positions rP)"
    and br: "\<forall>p\<in>set (positions rP). uint (position p) \<le> M + width rP"
    and lo: "0 \<le> lOffset" and ro: "0 \<le> rOffset"
    and wl: "width lP + lOffset \<le> W" and wr: "width rP + rOffset \<le> W"
    and W: "M + W < 2 ^ 16"
  shows "positionsSorted (evalFollowedBy_loop (positions lP) (positions rP) lOffset rOffset mode)"
    and "\<forall>e\<in>set (evalFollowedBy_loop (positions lP) (positions rP) lOffset rOffset mode).
           uint (position e) \<le> M + W"
proof -
  have W': "M + W < 65536" using W by simp
  have L: "uint (position x) + lOffset \<le> M + W" if "x \<in> set (positions lP)" for x
    using bl that wl by fastforce
  have R: "uint (position y) + rOffset \<le> M + W" if "y \<in> set (positions rP)" for y
    using br that wr by fastforce
  have L16: "\<forall>x\<in>set (positions lP). uint (position x) + lOffset < 2 ^ 16"
    using L W' by fastforce
  have R16: "\<forall>y\<in>set (positions rP). uint (position y) + rOffset < 2 ^ 16"
    using R W' by fastforce
  show "positionsSorted (evalFollowedBy_loop (positions lP) (positions rP) lOffset rOffset mode)"
    using lo ro sl sr L16 R16 by (rule loop_sorted)
  show "\<forall>e\<in>set (evalFollowedBy_loop (positions lP) (positions rP) lOffset rOffset mode).
           uint (position e) \<le> M + W"
  proof
    fix e
    assume "e \<in> set (evalFollowedBy_loop (positions lP) (positions rP) lOffset rOffset mode)"
    with loop_origin_any [of "positions lP" "positions rP" lOffset rOffset mode]
    consider (l) x where "x \<in> set (positions lP)" "position e = storedPos lOffset x"
      | (r) y where "y \<in> set (positions rP)" "position e = storedPos rOffset y"
      by auto
    then show "uint (position e) \<le> M + W"
    proof cases
      case l
      then have "uint (position e) = uint (position x) + lOffset"
        using lo L16 by (simp add: uint_storedPos_small)
      with L [OF l(1)] show ?thesis by simp
    next
      case r
      then have "uint (position e) = uint (position y) + rOffset"
        using ro R16 by (simp add: uint_storedPos_small)
      with R [OF r(1)] show ?thesis by simp
    qed
  qed
qed

lemma set_prefix_loop:
  "set (prefix_loop ts target) \<subseteq> (\<Union>e\<in>set ts. set (term_positions e))"
  by (induction ts) auto

lemma sortAndUniq_position_subset:
  "position ` set (sortAndUniqTSPositions pos) \<subseteq> position ` set pos"
proof -
  have "position ` set (sortAndUniqTSPositions pos)
      = set (take maxTSVectorPositions (remdups_adj (sort (map position pos))))"
    using sortAndUniq_positions [of pos] by (metis set_map)
  also have "\<dots> \<subseteq> set (remdups_adj (sort (map position pos)))"
    by (rule set_take_subset)
  also have "\<dots> = position ` set pos" by simp
  finally show ?thesis .
qed

lemma leaf_invariant:
  assumes "\<forall>e\<in>set v. positionsSorted (term_positions e)"
    and "\<forall>e\<in>set v. \<forall>p\<in>set (term_positions e). uint (position p) \<le> M"
    and "evalLeafWithin v t = Inr ps"
  shows "width ps = 0 \<and> positionsSorted (positions ps)
      \<and> (\<forall>p\<in>set (positions ps). uint (position p) \<le> M)"
proof -
  let ?i = "searchVector v (lexeme t)"
  consider (none) "ps = emptyPositionSet"
    | (pre) "?i < length v"
        "ps = emptyPositionSet
          \<lparr>positions := sortAndUniqTSPositions (prefix_loop (drop ?i v) (lexeme t))\<rparr>"
    | (exact) "?i < length v" "ps = emptyPositionSet \<lparr>positions := term_positions (v ! ?i)\<rparr>"
    using assms(3) by (auto simp: evalLeafWithin_def Let_def split: if_splits)
  then show ?thesis
  proof cases
    case none
    then show ?thesis by (simp add: emptyPositionSet_def positionsSorted_def)
  next
    case pre
    have "uint w \<le> M"
      if "w \<in> position ` set (sortAndUniqTSPositions (prefix_loop (drop ?i v) (lexeme t)))"
      for w
    proof -
      from that sortAndUniq_position_subset
      have "w \<in> position ` set (prefix_loop (drop ?i v) (lexeme t))" by blast
      with set_prefix_loop [of "drop ?i v" "lexeme t"]
      obtain e p where "e \<in> set (drop ?i v)" "p \<in> set (term_positions e)" "w = position p"
        by auto
      with assms(2) show ?thesis by (auto dest: in_set_dropD)
    qed
    with pre show ?thesis
      by (auto simp: emptyPositionSet_def positionsSorted_sortAndUniq)
  next
    case exact
    then have "v ! ?i \<in> set v" by simp
    with assms(1,2) exact show ?thesis by (auto simp: emptyPositionSet_def)
  qed
qed


lemma wrap64_small: "0 \<le> x \<Longrightarrow> x < 65536 \<Longrightarrow> wrap64 x = x"
  by (rule wrap64_nonneg) simp_all

lemma alignOffsets_max:
  "alignOffsets lP rP =
     (wrap64 (max (width lP) (width rP) - width lP),
      wrap64 (max (width lP) (width rP) - width rP), max (width lP) (width rP))"
proof -
  have "(if width lP < width rP then width rP else width lP) = max (width lP) (width rP)"
    by (simp add: max_def)
  then show ?thesis by (simp add: alignOffsets_def Let_def)
qed

lemma binary_children:
  assumes "evalWithinFollowedBy v (TsNode opr n t l r) = Inr ps"
    and "opr = and_op \<or> opr = or_op \<or> opr = followedby"
  obtains ln rn lP rP where "l = Some ln" "r = Some rn"
    "evalWithinFollowedBy v ln = Inr lP" "evalWithinFollowedBy v rn = Inr rP"
  using assms by (auto split: option.splits sum.splits)

lemma evalWithinFollowedBy_invariant:
  assumes s: "\<forall>e\<in>set v. positionsSorted (term_positions e)"
    and b: "\<forall>e\<in>set v. \<forall>p\<in>set (term_positions e). uint (position p) \<le> M"
    and M: "0 \<le> M"
  shows "evalWithinFollowedBy v q = Inr ps \<Longrightarrow> M + queryWidth q < 2 ^ 16 \<Longrightarrow>
    width ps = queryWidth q \<and> positionsSorted (positions ps)
    \<and> (\<forall>p\<in>set (positions ps). uint (position p) \<le> M + width ps)"
proof (induction q arbitrary: ps)
  case (TsNode opr n t l r)
  note ev = TsNode.prems(1)
  define Q where "Q = queryWidth (TsNode opr n t l r)"
  have bound: "M + Q < 2 ^ 16" using TsNode.prems(2) by (simp add: Q_def)
  have Qb: "Q < 65536" using bound M by simp
  let ?wl = "case l of None \<Rightarrow> 0 | Some ln \<Rightarrow> queryWidth ln"
  let ?wr = "case r of None \<Rightarrow> 0 | Some rn \<Rightarrow> queryWidth rn"
  have binary: "width ps = Q \<and> positionsSorted (positions ps)
      \<and> (\<forall>p\<in>set (positions ps). uint (position p) \<le> M + width ps)"
    if opr: "opr = and_op \<or> opr = or_op \<or> opr = followedby"
  proof -
    from binary_children [OF ev opr] obtain ln rn lP rP where
      c: "l = Some ln" "r = Some rn"
        "evalWithinFollowedBy v ln = Inr lP" "evalWithinFollowedBy v rn = Inr rP"
      by blast
    have wq: "queryWidth ln \<le> Q" "queryWidth rn \<le> Q"
      using opr c queryWidth_nonneg [of ln] queryWidth_nonneg [of rn]
      by (auto simp: Q_def Let_def)
    have bl: "M + queryWidth ln < 2 ^ 16" and br: "M + queryWidth rn < 2 ^ 16"
      using wq bound by linarith+
    have ml: "ln \<in> set_option l" and mr: "rn \<in> set_option r"
      using c by simp_all
    have il: "width lP = queryWidth ln \<and> positionsSorted (positions lP)
        \<and> (\<forall>p\<in>set (positions lP). uint (position p) \<le> M + width lP)"
      using ml c(3) bl by (rule TsNode.IH(1))
    have ir: "width rP = queryWidth rn \<and> positionsSorted (positions rP)
        \<and> (\<forall>p\<in>set (positions rP). uint (position p) \<le> M + width rP)"
      using mr c(4) br by (rule TsNode.IH(2))
    have nl: "0 \<le> width lP" and nr: "0 \<le> width rP"
      using il ir queryWidth_nonneg by simp_all
    from il have sl: "positionsSorted (positions lP)"
      and bl': "\<forall>p\<in>set (positions lP). uint (position p) \<le> M + width lP" by blast+
    from ir have sr: "positionsSorted (positions rP)"
      and br': "\<forall>p\<in>set (positions rP). uint (position p) \<le> M + width rP" by blast+
    show ?thesis
    proof (cases "opr = followedby")
      case True
      let ?lo = "uint n + width rP"
      let ?W = "uint n + width rP + width lP"
      have W: "?W = Q"
        using True c il ir by (simp add: Q_def Let_def)
      have n0: "0 \<le> uint n" by simp
      have w1: "wrap64 ?lo = ?lo"
        by (rule wrap64_small) (use nr nl W Qb n0 in linarith)+
      have w2: "wrap64 (?lo + width lP) = ?W"
        by (rule wrap64_small) (use nr nl W Qb n0 in linarith)+
      have ps: "ps = \<lparr>positions = evalFollowedBy_loop (positions lP) (positions rP) ?lo 0
            (fst (andMode (invert lP) (invert rP))),
          width = ?W, invert = snd (andMode (invert lP) (invert rP))\<rparr>"
        using ev True c w1 w2
        by (simp add: evalAnd_def mergeWith_eq' followedByOffsets_def Let_def)
      have MW: "M + ?W < 2 ^ 16" using bound W by simp
      have o: "0 \<le> ?lo" "(0::int) \<le> 0" "width lP + ?lo \<le> ?W" "width rP + 0 \<le> ?W"
        using nl nr n0 by simp_all
      note mi = merge_invariant [where mode = "fst (andMode (invert lP) (invert rP))",
          OF sl bl' sr br' o MW]
      show ?thesis unfolding ps using mi W by simp
    next
      case False
      let ?W = "max (width lP) (width rP)"
      have W: "?W = Q"
        using False opr c il ir by (auto simp: Q_def Let_def)
      have w1: "wrap64 (?W - width lP) = ?W - width lP"
        by (rule wrap64_small) (use nr nl W Qb in linarith)+
      have w2: "wrap64 (?W - width rP) = ?W - width rP"
        by (rule wrap64_small) (use nr nl W Qb in linarith)+
      obtain m where ps: "ps = \<lparr>positions = evalFollowedBy_loop (positions lP) (positions rP)
            (?W - width lP) (?W - width rP) (fst m), width = ?W, invert = snd m\<rparr>"
        using ev False opr c w1 w2
        by (auto simp: evalAnd_def evalOr_def mergeWith_eq' alignOffsets_max)
      have MW: "M + ?W < 2 ^ 16" using bound W by simp
      have o: "0 \<le> ?W - width lP" "0 \<le> ?W - width rP"
        "width lP + (?W - width lP) \<le> ?W" "width rP + (?W - width rP) \<le> ?W"
        by simp_all
      note mi = merge_invariant [where mode = "fst m", OF sl bl' sr br' o MW]
      show ?thesis unfolding ps using mi W by simp
    qed
  qed
  show ?case
  proof (cases opr)
    case invalid
    with ev leaf_invariant [OF s b, of t ps] show ?thesis by (simp add: Let_def)
  next
    case and_op
    then have "opr = and_op \<or> opr = or_op \<or> opr = followedby" by simp
    from binary [OF this] show ?thesis unfolding Q_def .
  next
    case or_op
    then have "opr = and_op \<or> opr = or_op \<or> opr = followedby" by simp
    from binary [OF this] show ?thesis unfolding Q_def .
  next
    case followedby
    then have "opr = and_op \<or> opr = or_op \<or> opr = followedby" by simp
    from binary [OF this] show ?thesis unfolding Q_def .
  next
    case not_op
    with ev obtain ln lP where c: "l = Some ln" "evalWithinFollowedBy v ln = Inr lP"
      "ps = lP\<lparr>invert := \<not> invert lP\<rparr>"
      by (auto split: option.splits sum.splits)
    have bl: "M + queryWidth ln < 2 ^ 16" using bound not_op c by (simp add: Q_def Let_def)
    have ml: "ln \<in> set_option l" using c by simp
    have "width lP = queryWidth ln \<and> positionsSorted (positions lP)
        \<and> (\<forall>p\<in>set (positions lP). uint (position p) \<le> M + width lP)"
      using ml c(2) bl by (rule TsNode.IH(1))
    then have "width lP = queryWidth ln" "positionsSorted (positions lP)"
      "\<forall>p\<in>set (positions lP). uint (position p) \<le> M + queryWidth ln"
      by auto
    with c not_op show ?thesis by (simp add: Let_def)
  next
    case (other_op k)
    with ev show ?thesis by simp
  qed
qed

lemma evalWithinFollowedBy_sorted_without_wrap:
  assumes "\<forall>e\<in>set v. positionsSorted (term_positions e)"
    and "\<forall>e\<in>set v. \<forall>p\<in>set (term_positions e). uint (position p) \<le> M"
    and "0 \<le> M" and "M + queryWidth q < 2 ^ 16"
    and "evalWithinFollowedBy v q = Inr ps"
  shows "positionsSorted (positions ps)"
  using evalWithinFollowedBy_invariant [OF assms(1,2,3,5,4)] by simp

text \<open>
  Claim C4 says that every position list in a value returned by the position-set
  evaluator is ascending by position without duplicates, for every query sub-tree and
  every vector whose position lists are ascending without duplicates. The merge stores
  each adjusted position in 16 bits, and an adjusted position of \<open>2 ^ 16\<close> or more wraps
  around: on the vector with the entry \<open>a\<close> at positions 1 and 16383 the query
  \<open>a <16384> !(b <16384> (c <16384> (d <1> e)))\<close> merges the left operand at offset 49153
  and returns the positions 49154 and 0, in this order.
\<close>

theorem wrapped_positions_unsorted:
  "positionsSorted [\<lparr>position = 1, weight = 0\<rparr>, \<lparr>position = 16383, weight = 0\<rparr>]
   \<and> evalWithinFollowedBy
     [\<lparr>lexeme = ''a'',
       term_positions = [\<lparr>position = 1, weight = 0\<rparr>, \<lparr>position = 16383, weight = 0\<rparr>]\<rparr>]
     (TsNode followedby 16384 \<lparr>lexeme = [], term_positions = []\<rparr>
        (Some (TsNode invalid 0 \<lparr>lexeme = ''a'', term_positions = []\<rparr> None None))
        (Some (TsNode not_op 0 \<lparr>lexeme = [], term_positions = []\<rparr>
           (Some (TsNode followedby 16384 \<lparr>lexeme = [], term_positions = []\<rparr>
              (Some (TsNode invalid 0 \<lparr>lexeme = ''b'', term_positions = []\<rparr> None None))
              (Some (TsNode followedby 16384 \<lparr>lexeme = [], term_positions = []\<rparr>
                 (Some (TsNode invalid 0 \<lparr>lexeme = ''c'', term_positions = []\<rparr> None None))
                 (Some (TsNode followedby 1 \<lparr>lexeme = [], term_positions = []\<rparr>
                    (Some (TsNode invalid 0 \<lparr>lexeme = ''d'', term_positions = []\<rparr>
                       None None))
                    (Some (TsNode invalid 0 \<lparr>lexeme = ''e'', term_positions = []\<rparr>
                       None None))))))))
           None)))
     = Inr \<lparr>positions = [\<lparr>position = 49154, weight = 0\<rparr>, \<lparr>position = 0, weight = 0\<rparr>],
            width = 49153, invert = False\<rparr>
   \<and> \<not> positionsSorted [\<lparr>position = 49154, weight = 0\<rparr>, \<lparr>position = 0, weight = 0\<rparr>]"
  by (simp add: positionsSorted_def evalLeafWithin_def searchVector_def Search_def
      Search_loop.simps prefixMatch_def emptyPositionSet_def evalAnd_def andMode_def
      mergeWith_def evalFollowedBy_def followedByOffsets_def evalFollowedBy_loop.simps
      cursorPos_def emitIf_def emitMatches_def emitLeftUnmatched_def emitRightUnmatched_def
      wrap64_def MaxInt64_def Let_def)

text \<open>The same wrap-around changes the answer of a query: with \<open>a\<close> at position 16383
  the sub-tree above ends at 65536, stored as 0, and one more \<open><1> z\<close> finds the entry
  \<open>z\<close> at position 1.\<close>

lemma wrapped_position_matches:
  "evalNode
     [\<lparr>lexeme = ''a'', term_positions = [\<lparr>position = 16383, weight = 0\<rparr>]\<rparr>,
      \<lparr>lexeme = ''z'', term_positions = [\<lparr>position = 1, weight = 0\<rparr>]\<rparr>]
     (TsNode followedby 1 \<lparr>lexeme = [], term_positions = []\<rparr>
        (Some (TsNode followedby 16384 \<lparr>lexeme = [], term_positions = []\<rparr>
           (Some (TsNode invalid 0 \<lparr>lexeme = ''a'', term_positions = []\<rparr> None None))
           (Some (TsNode not_op 0 \<lparr>lexeme = [], term_positions = []\<rparr>
              (Some (TsNode followedby 16384 \<lparr>lexeme = [], term_positions = []\<rparr>
                 (Some (TsNode invalid 0 \<lparr>lexeme = ''b'', term_positions = []\<rparr> None None))
                 (Some (TsNode followedby 16384 \<lparr>lexeme = [], term_positions = []\<rparr>
                    (Some (TsNode invalid 0 \<lparr>lexeme = ''c'', term_positions = []\<rparr>
                       None None))
                    (Some (TsNode followedby 1 \<lparr>lexeme = [], term_positions = []\<rparr>
                       (Some (TsNode invalid 0 \<lparr>lexeme = ''d'', term_positions = []\<rparr>
                          None None))
                       (Some (TsNode invalid 0 \<lparr>lexeme = ''e'', term_positions = []\<rparr>
                          None None))))))))
              None))))
        (Some (TsNode invalid 0 \<lparr>lexeme = ''z'', term_positions = []\<rparr> None None)))
     = Inr True"
  by (simp add: evalLeafWithin_def searchVector_def Search_def
      Search_loop.simps prefixMatch_def emptyPositionSet_def evalAnd_def andMode_def
      mergeWith_def evalFollowedBy_def followedByOffsets_def evalFollowedBy_loop.simps
      cursorPos_def emitIf_def emitMatches_def emitLeftUnmatched_def emitRightUnmatched_def
      wrap64_def MaxInt64_def Let_def)

end
